theory Spec2Isabelle
  imports Main "HOL-Library.Word"
begin

section \<open>Data model of \<^verbatim>\<open>extent_writer.h\<close>\<close>

text \<open>
  The header declares the abstract class \<^verbatim>\<open>ExtentWriter\<close> and two variants,
  \<^verbatim>\<open>DirectExtentWriter\<close> and \<^verbatim>\<open>ZeroPadExtentWriter\<close>.  Machine integers are words:
  \<^verbatim>\<open>size_t\<close> and \<^verbatim>\<open>uint64_t\<close> are 64 bits wide (an LP64 build), \<^verbatim>\<open>uint32_t\<close> is 32 bits.
  A buffer \<^verbatim>\<open>(const void* bytes, size_t count)\<close> is a list of bytes, its count the
  length of the list.  Field names lose the trailing underscore of the source.
\<close>

type_synonym byte = "8 word"
type_synonym size_t = "64 word"
type_synonym uint32_t = "32 word"
type_synonym uint64_t = "64 word"

text \<open>\<^verbatim>\<open>Extent\<close> (from \<^verbatim>\<open>update_metadata.pb.h\<close>): a start block and a number of blocks.\<close>

record Extent =
  start_block :: uint64_t
  num_blocks :: uint64_t

text \<open>
  Modelled from the spec: the sentinel start block that marks a hole.  The header that
  defines \<^verbatim>\<open>kSparseHole\<close> is not part of the sources; the spec only says that a
  designated starting-block value denotes a hole.  The largest 64-bit value is taken.
\<close>

definition kSparseHole :: uint64_t where
  "kSparseHole = - 1"

text \<open>
  What C++ leaves undefined is an outcome of its own, so that no result is promised
  after it: the remainder of a division by zero, and a call through a null target.
\<close>

datatype fault = ModuloByZero | NullTarget

text \<open>
  The virtual functions of \<^verbatim>\<open>ExtentWriter\<close>.  A variant supplies the three operations
  on its own fields \<open>'s\<close>; each returns the \<^verbatim>\<open>bool\<close> of the source and the updated
  fields.  \<open>'t\<close> is the target behind a \<^verbatim>\<open>FileDescriptorPtr\<close>; \<open>None\<close> is the null pointer.
\<close>

record ('t, 's) vtable =
  vInit :: "'t option \<Rightarrow> Extent list \<Rightarrow> uint32_t \<Rightarrow> 's \<Rightarrow> fault + (bool \<times> 's)"
  vWrite :: "byte list \<Rightarrow> 's \<Rightarrow> fault + (bool \<times> 's)"
  vEndImpl :: "'s \<Rightarrow> fault + (bool \<times> 's)"

text \<open>
  An object: the private flag of the base class and the fields of the variant.  The
  variant's member functions cannot reach \<^verbatim>\<open>end_called_\<close>.
\<close>

record 's ExtentWriter =
  end_called :: bool
  derived :: 's

text \<open>\<^verbatim>\<open>ExtentWriter() : end_called_(false) {}\<close>\<close>

definition new_ExtentWriter :: "'s \<Rightarrow> 's ExtentWriter" where
  "new_ExtentWriter s = \<lparr>end_called = False, derived = s\<rparr>"

text \<open>\<^verbatim>\<open>LOG_IF(ERROR, !end_called_) << "End() not called on ExtentWriter."\<close>: the lines logged
  by the destructor.\<close>

definition destroy :: "'s ExtentWriter \<Rightarrow> string list" where
  "destroy w = (if \<not> end_called w then [''End() not called on ExtentWriter.''] else [])"

text \<open>Calls of the two pure virtual functions on an object.\<close>

definition Init ::
  "('t, 's) vtable \<Rightarrow> 't option \<Rightarrow> Extent list \<Rightarrow> uint32_t \<Rightarrow> 's ExtentWriter
    \<Rightarrow> fault + (bool \<times> 's ExtentWriter)" where
  "Init V fd exts bs w =
     (case vInit V fd exts bs (derived w) of
        Inl f \<Rightarrow> Inl f
      | Inr (r, s) \<Rightarrow> Inr (r, w\<lparr>derived := s\<rparr>))"

definition Write ::
  "('t, 's) vtable \<Rightarrow> byte list \<Rightarrow> 's ExtentWriter \<Rightarrow> fault + (bool \<times> 's ExtentWriter)" where
  "Write V bytes w =
     (case vWrite V bytes (derived w) of
        Inl f \<Rightarrow> Inl f
      | Inr (r, s) \<Rightarrow> Inr (r, w\<lparr>derived := s\<rparr>))"

text \<open>\<^verbatim>\<open>bool End() { end_called_ = true; return EndImpl(); }\<close>\<close>

definition End ::
  "('t, 's) vtable \<Rightarrow> 's ExtentWriter \<Rightarrow> fault + (bool \<times> 's ExtentWriter)" where
  "End V w =
     (let w1 = w\<lparr>end_called := True\<rparr>
      in case vEndImpl V (derived w1) of
           Inl f \<Rightarrow> Inl f
         | Inr (r, s) \<Rightarrow> Inr (r, w1\<lparr>derived := s\<rparr>))"

section \<open>DirectExtentWriter\<close>

record 't DirectExtentWriter =
  fd :: "'t option"
  d_block_size :: nat
  extent_bytes_written :: nat
  extents :: "Extent list"
  next_extent_index :: nat

text \<open>The constructor: null target, block size 0, cursor at the start, no extents.\<close>

definition new_DirectExtentWriter :: "'t DirectExtentWriter" where
  "new_DirectExtentWriter =
     \<lparr>fd = None, d_block_size = 0, extent_bytes_written = 0, extents = [],
      next_extent_index = 0\<rparr>"

text \<open>\<^verbatim>\<open>Init\<close> stores its three arguments and returns true.  The widening of the
  \<^verbatim>\<open>uint32_t\<close> to \<^verbatim>\<open>size_t\<close> keeps the value.\<close>

definition Direct_Init ::
  "'t option \<Rightarrow> Extent list \<Rightarrow> uint32_t \<Rightarrow> 't DirectExtentWriter
    \<Rightarrow> fault + (bool \<times> 't DirectExtentWriter)" where
  "Direct_Init fd' exts bs d =
     Inr (True, d\<lparr>fd := fd', d_block_size := unat bs, extents := exts\<rparr>)"

definition Direct_EndImpl ::
  "'t DirectExtentWriter \<Rightarrow> fault + (bool \<times> 't DirectExtentWriter)" where
  "Direct_EndImpl d = Inr (True, d)"

text \<open>
  Modelled from the spec: \<^verbatim>\<open>DirectExtentWriter::Write\<close> is only declared in the header;
  its body is not part of the sources.  The loop below is the algorithm of the spec's
  section 4.2, step by step, on unbounded naturals as the spec writes it.  The target's
  positioned write \<open>pw t offset bytes\<close> is a parameter (\<open>None\<close>: the write failed).  The
  spec does not say what happens without a current extent or without a target: the
  first is taken as exhausted extents, the second as a fault.
\<close>

datatype write_error = ExhaustedExtents | IOFailure

function Direct_walk ::
  "('t \<Rightarrow> nat \<Rightarrow> byte list \<Rightarrow> 't option) \<Rightarrow> 't DirectExtentWriter \<Rightarrow> byte list
    \<Rightarrow> fault + (write_error option \<times> 't DirectExtentWriter)" where
  "Direct_walk pw d bytes =
     (if bytes = [] then Inr (None, d)
      else if length (extents d) \<le> next_extent_index d then Inr (Some ExhaustedExtents, d)
      else
        let current_extent = extents d ! next_extent_index d;
            remaining_in_extent =
              unat (num_blocks current_extent) * d_block_size d - extent_bytes_written d
        in
          if remaining_in_extent = 0 then
            (if Suc (next_extent_index d) < length (extents d) then
               Direct_walk pw
                 (d\<lparr>next_extent_index := Suc (next_extent_index d),
                    extent_bytes_written := 0\<rparr>) bytes
             else Inr (Some ExhaustedExtents, d))
          else
            let chunk = min (length bytes) remaining_in_extent in
              if start_block current_extent = kSparseHole then
                Direct_walk pw
                  (d\<lparr>extent_bytes_written := extent_bytes_written d + chunk\<rparr>)
                  (drop chunk bytes)
              else
                (case fd d of
                   None \<Rightarrow> Inl NullTarget
                 | Some t \<Rightarrow>
                     (case pw t (unat (start_block current_extent) * d_block_size d
                                  + extent_bytes_written d) (take chunk bytes) of
                        None \<Rightarrow> Inr (Some IOFailure, d)
                      | Some t' \<Rightarrow>
                          Direct_walk pw
                            (d\<lparr>fd := Some t',
                               extent_bytes_written := extent_bytes_written d + chunk\<rparr>)
                            (drop chunk bytes))))"
  by pat_completeness auto
termination
  by (relation "measures [\<lambda>(pw, d, bytes). length bytes,
                          \<lambda>(pw, d, bytes). length (extents d) - next_extent_index d]")
     (auto simp: Let_def)

declare Direct_walk.simps [simp del]

text \<open>\<^verbatim>\<open>bool Write(const void* bytes, size_t count)\<close>: true when the loop ends without
  an error.\<close>

definition Direct_Write ::
  "('t \<Rightarrow> nat \<Rightarrow> byte list \<Rightarrow> 't option) \<Rightarrow> byte list \<Rightarrow> 't DirectExtentWriter
    \<Rightarrow> fault + (bool \<times> 't DirectExtentWriter)" where
  "Direct_Write pw bytes d =
     (case Direct_walk pw d bytes of
        Inl f \<Rightarrow> Inl f
      | Inr (e, d') \<Rightarrow> Inr (e = None, d'))"

definition Direct_vtable ::
  "('t \<Rightarrow> nat \<Rightarrow> byte list \<Rightarrow> 't option) \<Rightarrow> ('t, 't DirectExtentWriter) vtable" where
  "Direct_vtable pw =
     \<lparr>vInit = Direct_Init, vWrite = Direct_Write pw, vEndImpl = Direct_EndImpl\<rparr>"

section \<open>ZeroPadExtentWriter\<close>

text \<open>
  The decorator points to the writer it wraps.  The model holds the wrapped object in
  the place of the pointer: during a session nothing else calls the wrapped writer.
\<close>

record 's ZeroPadExtentWriter =
  underlying_extent_writer :: "'s ExtentWriter"
  z_block_size :: size_t
  bytes_written_mod_block_size :: size_t

definition new_ZeroPadExtentWriter :: "'s ExtentWriter \<Rightarrow> 's ZeroPadExtentWriter" where
  "new_ZeroPadExtentWriter u =
     \<lparr>underlying_extent_writer = u, z_block_size = 0, bytes_written_mod_block_size = 0\<rparr>"

definition ZeroPad_Init ::
  "('t, 's) vtable \<Rightarrow> 't option \<Rightarrow> Extent list \<Rightarrow> uint32_t \<Rightarrow> 's ZeroPadExtentWriter
    \<Rightarrow> fault + (bool \<times> 's ZeroPadExtentWriter)" where
  "ZeroPad_Init U fd' exts bs z =
     (let z1 = z\<lparr>z_block_size := ucast bs\<rparr>
      in case Init U fd' exts bs (underlying_extent_writer z1) of
           Inl f \<Rightarrow> Inl f
         | Inr (r, u) \<Rightarrow> Inr (r, z1\<lparr>underlying_extent_writer := u\<rparr>))"

text \<open>
  \<^verbatim>\<open>+=\<close> wraps at 64 bits; \<^verbatim>\<open>%=\<close> with a zero block size is undefined in C++ and is
  the fault \<open>ModuloByZero\<close> here.
\<close>

definition ZeroPad_Write ::
  "('t, 's) vtable \<Rightarrow> byte list \<Rightarrow> 's ZeroPadExtentWriter
    \<Rightarrow> fault + (bool \<times> 's ZeroPadExtentWriter)" where
  "ZeroPad_Write U bytes z =
     (case Write U bytes (underlying_extent_writer z) of
        Inl f \<Rightarrow> Inl f
      | Inr (r, u) \<Rightarrow>
          if r then
            (let z1 = z\<lparr>underlying_extent_writer := u,
                         bytes_written_mod_block_size :=
                           bytes_written_mod_block_size z + word_of_nat (length bytes)\<rparr>
             in if z_block_size z1 = 0 then Inl ModuloByZero
                else Inr (True, z1\<lparr>bytes_written_mod_block_size :=
                                     bytes_written_mod_block_size z1 mod z_block_size z1\<rparr>))
          else Inr (False, z\<lparr>underlying_extent_writer := u\<rparr>))"

definition ZeroPad_EndImpl ::
  "('t, 's) vtable \<Rightarrow> 's ZeroPadExtentWriter \<Rightarrow> fault + (bool \<times> 's ZeroPadExtentWriter)" where
  "ZeroPad_EndImpl U z =
     (if bytes_written_mod_block_size z \<noteq> 0 then
        (let write_size = z_block_size z - bytes_written_mod_block_size z;
             zeros = replicate (unat write_size) (0 :: byte)
         in case Write U zeros (underlying_extent_writer z) of
              Inl f \<Rightarrow> Inl f
            | Inr (r, u) \<Rightarrow>
                if r then
                  (case End U u of
                     Inl f \<Rightarrow> Inl f
                   | Inr (r', u') \<Rightarrow> Inr (r', z\<lparr>underlying_extent_writer := u'\<rparr>))
                else Inr (False, z\<lparr>underlying_extent_writer := u\<rparr>))
      else
        (case End U (underlying_extent_writer z) of
           Inl f \<Rightarrow> Inl f
         | Inr (r', u') \<Rightarrow> Inr (r', z\<lparr>underlying_extent_writer := u'\<rparr>)))"

definition ZeroPad_vtable :: "('t, 's) vtable \<Rightarrow> ('t, 's ZeroPadExtentWriter) vtable" where
  "ZeroPad_vtable U =
     \<lparr>vInit = ZeroPad_Init U, vWrite = ZeroPad_Write U, vEndImpl = ZeroPad_EndImpl U\<rparr>"

section \<open>Sessions\<close>

text \<open>A caller's sequence of \<^verbatim>\<open>Write\<close> calls, one per buffer, with the result of each.\<close>

fun Writes ::
  "('t, 's) vtable \<Rightarrow> byte list list \<Rightarrow> 's ExtentWriter
    \<Rightarrow> fault + (bool list \<times> 's ExtentWriter)" where
  "Writes V [] w = Inr ([], w)"
| "Writes V (b # bs) w =
     (case Write V b w of
        Inl f \<Rightarrow> Inl f
      | Inr (r, w') \<Rightarrow>
          (case Writes V bs w' of
             Inl f \<Rightarrow> Inl f
           | Inr (rs, w'') \<Rightarrow> Inr (r # rs, w'')))"

text \<open>The number of bytes in the buffers whose write returned true.\<close>

fun written :: "byte list list \<Rightarrow> bool list \<Rightarrow> nat" where
  "written (b # bs) (r # rs) = (if r then length b else 0) + written bs rs"
| "written _ _ = 0"

section \<open>The target and the layout of the logical stream\<close>

text \<open>
  Modelled from the spec: the target handle is an external collaborator that supports a
  positioned write of bytes at an absolute byte offset.  A target that never fails is
  the journal of the positioned writes it received, in order.
\<close>

type_synonym journal = "(nat \<times> byte list) list"

definition journal_pwrite :: "journal \<Rightarrow> nat \<Rightarrow> byte list \<Rightarrow> journal option" where
  "journal_pwrite t offset bytes = Some (t @ [(offset, bytes)])"

text \<open>Every byte the target stored, with its offset, in the order of storing.\<close>

definition stores :: "journal \<Rightarrow> (nat \<times> byte) list" where
  "stores t = concat (map (\<lambda>(offset, bytes). zip [offset ..< offset + length bytes] bytes) t)"

text \<open>What the target reads at an offset afterwards: the last byte stored there.\<close>

definition contents :: "journal \<Rightarrow> nat \<Rightarrow> byte option" where
  "contents t = map_of (rev (stores t))"

text \<open>
  The spec's layout of the logical stream (section 3): extent 0 receives the first
  \<open>block_size * count\<close> bytes, extent 1 the next ones, and so on; byte \<open>k\<close> of a
  non-hole extent goes to offset \<open>start_block * block_size + k\<close>, a byte of a hole goes
  nowhere.  \<open>layout\<close> lists the place of every logical byte.
\<close>

definition extent_layout :: "nat \<Rightarrow> Extent \<Rightarrow> nat option list" where
  "extent_layout bs e =
     (if start_block e = kSparseHole then replicate (unat (num_blocks e) * bs) None
      else map (\<lambda>k. Some (unat (start_block e) * bs + k)) [0 ..< unat (num_blocks e) * bs])"

definition layout :: "nat \<Rightarrow> Extent list \<Rightarrow> nat option list" where
  "layout bs exts = concat (map (extent_layout bs) exts)"

text \<open>The stores that put a stream of bytes at the places of a layout.\<close>

definition placement :: "nat option list \<Rightarrow> byte list \<Rightarrow> (nat \<times> byte) list" where
  "placement places data =
     concat (map (\<lambda>(place, b). case place of None \<Rightarrow> [] | Some a \<Rightarrow> [(a, b)])
               (zip places data))"

text \<open>The capacity of an extent list in bytes.\<close>

definition capacity :: "nat \<Rightarrow> Extent list \<Rightarrow> nat" where
  "capacity bs exts = bs * sum_list (map (\<lambda>e. unat (num_blocks e)) exts)"

section \<open>The cursor of the direct writer\<close>

text \<open>
  The bytes left in the current extent, the places of the logical bytes still to come
  (the layout from the cursor on), and the invariant that the cursor lies inside its
  extent.
\<close>

abbreviation remaining_in_extent :: "'t DirectExtentWriter \<Rightarrow> nat" where
  "remaining_in_extent d \<equiv>
     unat (num_blocks (extents d ! next_extent_index d)) * d_block_size d
       - extent_bytes_written d"

definition ahead :: "'t DirectExtentWriter \<Rightarrow> nat option list" where
  "ahead d =
     drop (extent_bytes_written d)
       (layout (d_block_size d) (drop (next_extent_index d) (extents d)))"

definition cursor_ok :: "'t DirectExtentWriter \<Rightarrow> bool" where
  "cursor_ok d \<longleftrightarrow>
     (next_extent_index d < length (extents d) \<longrightarrow>
        extent_bytes_written d
          \<le> unat (num_blocks (extents d ! next_extent_index d)) * d_block_size d)"

section \<open>Sessions of a decorated writer\<close>

text \<open>The writer behind a decorator.\<close>

definition wrapped :: "'s ZeroPadExtentWriter ExtentWriter \<Rightarrow> 's ExtentWriter" where
  "wrapped zw = underlying_extent_writer (derived zw)"

text \<open>
  A session as the caller drives it: \<^verbatim>\<open>Init\<close>, the writes, and \<^verbatim>\<open>End\<close> when \<open>finalize\<close> is
  set; the results of the calls are returned in order.
\<close>

definition session ::
  "('t, 's) vtable \<Rightarrow> 't option \<Rightarrow> Extent list \<Rightarrow> uint32_t \<Rightarrow> byte list list \<Rightarrow> bool
    \<Rightarrow> 's ExtentWriter \<Rightarrow> fault + (bool list \<times> 's ExtentWriter)" where
  "session V fd' exts bs chunks finalize w =
     (case Init V fd' exts bs w of
        Inl f \<Rightarrow> Inl f
      | Inr (r0, w1) \<Rightarrow>
          (case Writes V chunks w1 of
             Inl f \<Rightarrow> Inl f
           | Inr (rs, w2) \<Rightarrow>
               if finalize then
                 (case End V w2 of
                    Inl f \<Rightarrow> Inl f
                  | Inr (re, w3) \<Rightarrow> Inr (r0 # rs @ [re], w3))
               else Inr (r0 # rs, w2)))"

text \<open>
  The invariant of two stacked decorators: both hold the same block size and the same
  counter, and the counter is 0 while the block size is.
\<close>

definition coupled :: "'s ZeroPadExtentWriter ZeroPadExtentWriter ExtentWriter \<Rightarrow> bool" where
  "coupled zzw \<longleftrightarrow>
     z_block_size (derived zzw) = z_block_size (derived (wrapped zzw))
   \<and> bytes_written_mod_block_size (derived zzw)
       = bytes_written_mod_block_size (derived (wrapped zzw))
   \<and> (z_block_size (derived zzw) = 0 \<longrightarrow> bytes_written_mod_block_size (derived zzw) = 0)"

text \<open>
  A probe around a writer that records every call that reaches it, with its arguments
  and its result.
\<close>

datatype 't event =
  InitCall "'t option" "Extent list" uint32_t bool
| WriteCall "byte list" bool
| EndImplCall bool

definition Recording :: "('t, 's) vtable \<Rightarrow> ('t, 't event list \<times> 's) vtable" where
  "Recording U =
     \<lparr>vInit = (\<lambda>fd' exts bs (calls, s).
                 case vInit U fd' exts bs s of
                   Inl f \<Rightarrow> Inl f
                 | Inr (r, s') \<Rightarrow> Inr (r, (calls @ [InitCall fd' exts bs r], s'))),
      vWrite = (\<lambda>bytes (calls, s).
                 case vWrite U bytes s of
                   Inl f \<Rightarrow> Inl f
                 | Inr (r, s') \<Rightarrow> Inr (r, (calls @ [WriteCall bytes r], s'))),
      vEndImpl = (\<lambda>(calls, s).
                 case vEndImpl U s of
                   Inl f \<Rightarrow> Inl f
                 | Inr (r, s') \<Rightarrow> Inr (r, (calls @ [EndImplCall r], s')))\<rparr>"

section \<open>What the spec says finalize does\<close>

text \<open>
  The spec's words for the decorator's finalize, as calls on the wrapped writer: either
  only its \<^verbatim>\<open>End\<close>, or one write of \<open>n\<close> zero bytes that makes the whole finalize fail
  when it fails, followed by its \<^verbatim>\<open>End\<close>, whose result is returned.
\<close>

definition finalize_without_padding ::
  "('t, 's) vtable \<Rightarrow> 's ZeroPadExtentWriter ExtentWriter
    \<Rightarrow> fault + (bool \<times> 's ZeroPadExtentWriter ExtentWriter)" where
  "finalize_without_padding U zw =
     (case End U (underlying_extent_writer (derived zw)) of
        Inl f \<Rightarrow> Inl f
      | Inr (r, u) \<Rightarrow>
          Inr (r, \<lparr>end_called = True,
                   derived = (derived zw)\<lparr>underlying_extent_writer := u\<rparr>\<rparr>))"

definition finalize_with_padding ::
  "('t, 's) vtable \<Rightarrow> nat \<Rightarrow> 's ZeroPadExtentWriter ExtentWriter
    \<Rightarrow> fault + (bool \<times> 's ZeroPadExtentWriter ExtentWriter)" where
  "finalize_with_padding U n zw =
     (case Write U (replicate n 0) (underlying_extent_writer (derived zw)) of
        Inl f \<Rightarrow> Inl f
      | Inr (ok, u) \<Rightarrow>
          if ok then
            finalize_without_padding U
              (zw\<lparr>derived := (derived zw)\<lparr>underlying_extent_writer := u\<rparr>\<rparr>)
          else
            Inr (False, \<lparr>end_called = True,
                         derived = (derived zw)\<lparr>underlying_extent_writer := u\<rparr>\<rparr>))"

section \<open>A concrete session for the examples\<close>

text \<open>
  A direct writer over an empty journal, initialised with block size 4 and the extents
  (start 5, 2 blocks) and (start 10, 1 block): a capacity of 12 bytes.
\<close>

definition demo_extents :: "Extent list" where
  "demo_extents = [\<lparr>start_block = 5, num_blocks = 2\<rparr>, \<lparr>start_block = 10, num_blocks = 1\<rparr>]"

definition demo_direct :: "journal DirectExtentWriter ExtentWriter" where
  "demo_direct =
     \<lparr>end_called = False,
      derived = \<lparr>fd = Some [], d_block_size = 4, extent_bytes_written = 0,
                 extents = demo_extents, next_extent_index = 0\<rparr>\<rparr>"

text \<open>
  The example of the spec uses the same extents with block size 4096; this is the target
  offset the spec gives there for logical byte \<open>i\<close>.
\<close>

definition example_offset :: "nat \<Rightarrow> nat" where
  "example_offset i = (if i < 8192 then 5 * 4096 + i else 10 * 4096 + (i - 8192))"

definition demo_zeropad :: "journal DirectExtentWriter ZeroPadExtentWriter ExtentWriter" where
  "demo_zeropad =
     \<lparr>end_called = False,
      derived = \<lparr>underlying_extent_writer = demo_direct, z_block_size = 4,
                 bytes_written_mod_block_size = 0\<rparr>\<rparr>"

section \<open>Auxiliary facts\<close>

lemmas demo_defs =
  demo_zeropad_def demo_direct_def demo_extents_def Init_def Write_def End_def
  Direct_vtable_def Direct_Init_def Direct_Write_def Direct_EndImpl_def Direct_walk.simps journal_pwrite_def kSparseHole_def
  ZeroPad_vtable_def ZeroPad_Init_def ZeroPad_Write_def ZeroPad_EndImpl_def
  new_ExtentWriter_def new_DirectExtentWriter_def new_ZeroPadExtentWriter_def

lemma ucast_block_size_eq_0: "(ucast (bs :: uint32_t) :: size_t) = 0 \<longleftrightarrow> bs = 0"
proof
  assume z: "(ucast bs :: size_t) = 0"
  have "(ucast (ucast bs :: size_t) :: uint32_t) = bs"
    by (rule ucast_up_ucast_id) (simp add: is_up)
  with z show "bs = 0" by simp
next
  assume "bs = 0"
  then show "(ucast bs :: size_t) = 0" by simp
qed

lemma unat_ucast_block_size: "unat (ucast (bs :: uint32_t) :: size_t) = unat bs"
  by (simp add: unsigned_ucast_eq take_bit_nat_eq_self unsigned_less [THEN less_trans])

lemma unat_counter_step:
  fixes c b :: size_t
  assumes "unat c + n < 2 ^ 64"
  shows "unat ((c + word_of_nat n) mod b) = (unat c + n) mod unat b"
proof -
  have "unat (word_of_nat n :: size_t) = n"
    using assms by (simp add: unat_of_nat)
  then have "unat (c + word_of_nat n) = unat c + n"
    using assms by (simp add: unat_word_ariths)
  then show ?thesis
    by (simp add: unat_mod)
qed

lemma End_sets_end_called: "End U u = Inr (r, u') \<Longrightarrow> end_called u'"
  by (auto simp: End_def Let_def split: sum.splits prod.splits)

lemma ZeroPad_Write_step:
  assumes w: "Write (ZeroPad_vtable U) b zw = Inr (r, zw')"
      and len: "length b < 2 ^ 63"
      and bsz: "z_block_size (derived zw) = ucast (bs :: uint32_t)"
      and cnt: "unat (bytes_written_mod_block_size (derived zw)) = n mod unat bs"
  shows "z_block_size (derived zw') = ucast bs
       \<and> unat (bytes_written_mod_block_size (derived zw'))
           = (n + (if r then length b else 0)) mod unat bs
       \<and> (r \<longrightarrow> bs \<noteq> 0)"
proof (cases r)
  case False
  with w bsz cnt show ?thesis
    by (auto simp: Write_def ZeroPad_vtable_def ZeroPad_Write_def Let_def
        split: sum.splits prod.splits if_splits)
next
  case True
  with w bsz have nz: "bs \<noteq> 0"
    by (auto simp: Write_def ZeroPad_vtable_def ZeroPad_Write_def Let_def ucast_block_size_eq_0
        split: sum.splits prod.splits if_splits)
  from True w bsz have
    b': "z_block_size (derived zw') = ucast bs" and
    c': "bytes_written_mod_block_size (derived zw')
          = (bytes_written_mod_block_size (derived zw) + word_of_nat (length b)) mod ucast bs"
    by (auto simp: Write_def ZeroPad_vtable_def ZeroPad_Write_def Let_def
        split: sum.splits prod.splits if_splits)
  have "unat bs < 2 ^ 32"
    using unsigned_less [of bs] by simp
  moreover have "n mod unat bs < unat bs"
    using nz by (simp add: unat_gt_0)
  ultimately have fits: "unat (bytes_written_mod_block_size (derived zw)) + length b < 2 ^ 64"
    using len cnt by simp
  have "unat (bytes_written_mod_block_size (derived zw'))
          = (n mod unat bs + length b) mod unat bs"
    using unat_counter_step [OF fits, of "ucast bs"] c' cnt
    by (simp add: unat_ucast_block_size)
  also have "\<dots> = (n + length b) mod unat bs"
    by (simp add: mod_add_left_eq)
  finally show ?thesis
    using True b' nz by simp
qed

lemma ZeroPad_Writes_counter:
  assumes "Writes (ZeroPad_vtable U) chunks zw = Inr (rs, zw')"
      and "\<forall>b \<in> set chunks. length b < 2 ^ 63"
      and "z_block_size (derived zw) = ucast (bs :: uint32_t)"
      and "unat (bytes_written_mod_block_size (derived zw)) = n mod unat bs"
  shows "z_block_size (derived zw') = ucast bs
       \<and> unat (bytes_written_mod_block_size (derived zw'))
           = (n + written chunks rs) mod unat bs
       \<and> (bs = 0 \<longrightarrow> written chunks rs = 0)"
  using assms
proof (induction chunks arbitrary: zw rs n)
  case Nil
  then show ?case by auto
next
  case (Cons b chunks)
  from Cons.prems(1) obtain r zw1 rs' where
    w: "Write (ZeroPad_vtable U) b zw = Inr (r, zw1)" and
    ws: "Writes (ZeroPad_vtable U) chunks zw1 = Inr (rs', zw')" and
    rs: "rs = r # rs'"
    by (auto split: sum.splits prod.splits)
  from Cons.prems(2) have len: "length b < 2 ^ 63" and lens: "\<forall>b \<in> set chunks. length b < 2 ^ 63"
    by simp_all
  note step = ZeroPad_Write_step [OF w len Cons.prems(3) Cons.prems(4)]
  from step have b1: "z_block_size (derived zw1) = ucast bs"
    and c1: "unat (bytes_written_mod_block_size (derived zw1))
              = (n + (if r then length b else 0)) mod unat bs"
    and r1: "r \<longrightarrow> bs \<noteq> 0"
    by simp_all
  from Cons.IH [OF ws lens b1 c1] rs r1 show ?case
    by (auto simp: add.assoc)
qed

lemma ZeroPad_session_counter:
  assumes init: "Init (ZeroPad_vtable U) fd' exts bs
                   (new_ExtentWriter (new_ZeroPadExtentWriter u0)) = Inr (r0, z1)"
      and writes: "Writes (ZeroPad_vtable U) chunks z1 = Inr (rs, z2)"
      and sizes: "\<forall>b \<in> set chunks. length b < 2 ^ 63"
  shows "z_block_size (derived z2) = ucast bs
       \<and> unat (bytes_written_mod_block_size (derived z2)) = written chunks rs mod unat bs
       \<and> (bs = 0 \<longrightarrow> written chunks rs = 0)"
proof -
  from init have "z_block_size (derived z1) = ucast bs"
    and "unat (bytes_written_mod_block_size (derived z1)) = 0 mod unat bs"
    by (auto simp: Init_def ZeroPad_vtable_def ZeroPad_Init_def Let_def new_ExtentWriter_def
        new_ZeroPadExtentWriter_def split: sum.splits prod.splits)
  from ZeroPad_Writes_counter [OF writes sizes this] show ?thesis by simp
qed

lemma End_ZeroPad_aligned:
  "bytes_written_mod_block_size (derived zw) = 0 \<Longrightarrow>
   End (ZeroPad_vtable U) zw = finalize_without_padding U zw"
  by (simp add: End_def ZeroPad_vtable_def ZeroPad_EndImpl_def finalize_without_padding_def
      split: sum.splits prod.splits)

lemma End_ZeroPad_unaligned:
  "bytes_written_mod_block_size (derived zw) \<noteq> 0 \<Longrightarrow>
   End (ZeroPad_vtable U) zw
     = finalize_with_padding U
         (unat (z_block_size (derived zw) - bytes_written_mod_block_size (derived zw))) zw"
  by (simp add: End_def ZeroPad_vtable_def ZeroPad_EndImpl_def finalize_with_padding_def
      finalize_without_padding_def Let_def
      split: sum.splits prod.splits)

lemma stacked_Init:
  "map_sum id (map_prod id wrapped)
     (Init (ZeroPad_vtable (ZeroPad_vtable U)) fd' exts bs
        (new_ExtentWriter (new_ZeroPadExtentWriter (new_ExtentWriter (new_ZeroPadExtentWriter u0)))))
   = Init (ZeroPad_vtable U) fd' exts bs (new_ExtentWriter (new_ZeroPadExtentWriter u0))"
  by (simp add: Init_def ZeroPad_vtable_def ZeroPad_Init_def Let_def new_ExtentWriter_def
      new_ZeroPadExtentWriter_def wrapped_def split: sum.splits prod.splits)

lemma stacked_Init_coupled:
  "Init (ZeroPad_vtable (ZeroPad_vtable U)) fd' exts bs
     (new_ExtentWriter (new_ZeroPadExtentWriter (new_ExtentWriter (new_ZeroPadExtentWriter u0))))
   = Inr (r, zzw) \<Longrightarrow> coupled zzw \<and> \<not> end_called zzw \<and> \<not> end_called (wrapped zzw)"
  by (auto simp: Init_def ZeroPad_vtable_def ZeroPad_Init_def Let_def new_ExtentWriter_def
      new_ZeroPadExtentWriter_def wrapped_def coupled_def split: sum.splits prod.splits)

lemma Write_ZeroPad:
  "Write (ZeroPad_vtable U) b zw =
     (case ZeroPad_Write U b (derived zw) of
        Inl f \<Rightarrow> Inl f
      | Inr (r, s) \<Rightarrow> Inr (r, zw\<lparr>derived := s\<rparr>))"
  by (simp add: Write_def ZeroPad_vtable_def)

lemma ZeroPad_Write_Inl:
  "Write U b (wrapped zw) = Inl f \<Longrightarrow> Write (ZeroPad_vtable U) b zw = Inl f"
  by (simp add: Write_ZeroPad ZeroPad_Write_def wrapped_def)

lemma ZeroPad_Write_False:
  "Write U b (wrapped zw) = Inr (False, u) \<Longrightarrow>
   Write (ZeroPad_vtable U) b zw
     = Inr (False, zw\<lparr>derived := (derived zw)\<lparr>underlying_extent_writer := u\<rparr>\<rparr>)"
  by (simp add: Write_ZeroPad ZeroPad_Write_def wrapped_def)

lemma ZeroPad_Write_True:
  "Write U b (wrapped zw) = Inr (True, u) \<Longrightarrow>
   Write (ZeroPad_vtable U) b zw
     = (if z_block_size (derived zw) = 0 then Inl ModuloByZero
        else Inr (True, zw\<lparr>derived := (derived zw)
               \<lparr>underlying_extent_writer := u,
                bytes_written_mod_block_size :=
                  (bytes_written_mod_block_size (derived zw) + word_of_nat (length b))
                    mod z_block_size (derived zw)\<rparr>\<rparr>))"
  by (simp add: Write_ZeroPad ZeroPad_Write_def wrapped_def Let_def)

lemma Write_cases:
  obtains (fault) f where "Write U b w = Inl f"
  | (failure) u where "Write U b w = Inr (False, u)"
  | (success) u where "Write U b w = Inr (True, u)"
proof (cases "Write U b w")
  case (Inl f)
  then show ?thesis by (rule fault)
next
  case (Inr p)
  then show ?thesis
    by (cases p; cases "fst p") (auto intro: failure success)
qed

lemma stacked_Write:
  assumes c: "coupled zzw"
  shows "map_sum id (map_prod id wrapped) (Write (ZeroPad_vtable (ZeroPad_vtable U)) b zzw)
           = Write (ZeroPad_vtable U) b (wrapped zzw)
       \<and> (\<forall>r zzw'. Write (ZeroPad_vtable (ZeroPad_vtable U)) b zzw = Inr (r, zzw') \<longrightarrow>
            coupled zzw' \<and> end_called zzw' = end_called zzw
            \<and> end_called (wrapped zzw') = end_called (wrapped zzw))"
proof (cases rule: Write_cases [of U b "wrapped (wrapped zzw)"])
  case (fault f)
  from ZeroPad_Write_Inl [OF fault] have "Write (ZeroPad_vtable U) b (wrapped zzw) = Inl f" .
  moreover from ZeroPad_Write_Inl [OF this]
  have "Write (ZeroPad_vtable (ZeroPad_vtable U)) b zzw = Inl f" .
  ultimately show ?thesis by simp
next
  case (failure u)
  note inner = ZeroPad_Write_False [OF failure]
  note outer = ZeroPad_Write_False [OF inner]
  from c show ?thesis
    unfolding outer inner by (auto simp: wrapped_def coupled_def)
next
  case (success u)
  note inner = ZeroPad_Write_True [OF success]
  show ?thesis
  proof (cases "z_block_size (derived zzw) = 0")
    case True
    with c have "z_block_size (derived (wrapped zzw)) = 0"
      by (simp add: coupled_def)
    with inner have i: "Write (ZeroPad_vtable U) b (wrapped zzw) = Inl ModuloByZero"
      by simp
    from ZeroPad_Write_Inl [OF i] i show ?thesis by simp
  next
    case False
    with c have "z_block_size (derived (wrapped zzw)) \<noteq> 0"
      by (simp add: coupled_def)
    with inner have i: "Write (ZeroPad_vtable U) b (wrapped zzw)
        = Inr (True, (wrapped zzw)\<lparr>derived := (derived (wrapped zzw))
               \<lparr>underlying_extent_writer := u,
                bytes_written_mod_block_size :=
                  (bytes_written_mod_block_size (derived (wrapped zzw)) + word_of_nat (length b))
                    mod z_block_size (derived (wrapped zzw))\<rparr>\<rparr>)"
      by simp
    from False have o: "Write (ZeroPad_vtable (ZeroPad_vtable U)) b zzw
        = Inr (True, zzw\<lparr>derived := (derived zzw)
               \<lparr>underlying_extent_writer := (wrapped zzw)\<lparr>derived := (derived (wrapped zzw))
                    \<lparr>underlying_extent_writer := u,
                     bytes_written_mod_block_size :=
                       (bytes_written_mod_block_size (derived (wrapped zzw))
                         + word_of_nat (length b)) mod z_block_size (derived (wrapped zzw))\<rparr>\<rparr>,
                bytes_written_mod_block_size :=
                  (bytes_written_mod_block_size (derived zzw) + word_of_nat (length b))
                    mod z_block_size (derived zzw)\<rparr>\<rparr>)"
      using ZeroPad_Write_True [OF i] by simp
    from c False show ?thesis
      unfolding o i by (auto simp: wrapped_def coupled_def)
  qed
qed

lemma stacked_Writes:
  assumes "coupled zzw"
  shows "map_sum id (map_prod id wrapped) (Writes (ZeroPad_vtable (ZeroPad_vtable U)) chunks zzw)
         = Writes (ZeroPad_vtable U) chunks (wrapped zzw)
       \<and> (\<forall>rs zzw'. Writes (ZeroPad_vtable (ZeroPad_vtable U)) chunks zzw = Inr (rs, zzw') \<longrightarrow>
            coupled zzw' \<and> end_called zzw' = end_called zzw
            \<and> end_called (wrapped zzw') = end_called (wrapped zzw))"
  using assms
proof (induction chunks arbitrary: zzw)
  case Nil
  then show ?case by simp
next
  case (Cons b chunks)
  note step = stacked_Write [OF Cons.prems, of U b]
  show ?case
  proof (cases "Write (ZeroPad_vtable (ZeroPad_vtable U)) b zzw")
    case (Inl f)
    with step have "Write (ZeroPad_vtable U) b (wrapped zzw) = Inl f"
      by simp
    with Inl show ?thesis by simp
  next
    case (Inr p)
    obtain r zzw1 where p: "p = (r, zzw1)" by (cases p)
    from step Inr p
    have single: "Write (ZeroPad_vtable U) b (wrapped zzw) = Inr (r, wrapped zzw1)"
      by simp
    from step Inr p
    have c1: "coupled zzw1" and f1: "end_called zzw1 = end_called zzw"
      "end_called (wrapped zzw1) = end_called (wrapped zzw)"
      by auto
    note ih = Cons.IH [OF c1]
    show ?thesis
    proof (cases "Writes (ZeroPad_vtable (ZeroPad_vtable U)) chunks zzw1")
      case (Inl f)
      with ih have "Writes (ZeroPad_vtable U) chunks (wrapped zzw1) = Inl f"
        by simp
      with Inl Inr p single show ?thesis by simp
    next
      case inr: (Inr q)
      obtain rs zzw2 where q: "q = (rs, zzw2)" by (cases q)
      from ih inr q have "Writes (ZeroPad_vtable U) chunks (wrapped zzw1) = Inr (rs, wrapped zzw2)"
        by simp
      moreover from ih inr q have "coupled zzw2" "end_called zzw2 = end_called zzw1"
        "end_called (wrapped zzw2) = end_called (wrapped zzw1)"
        by auto
      ultimately show ?thesis
        using inr q Inr p single f1 by simp
    qed
  qed
qed


lemma End_ZeroPad_cases:
  "End (ZeroPad_vtable U) zw
     = (if bytes_written_mod_block_size (derived zw) = 0 then finalize_without_padding U zw
        else finalize_with_padding U
               (unat (z_block_size (derived zw) - bytes_written_mod_block_size (derived zw))) zw)"
  by (simp add: End_ZeroPad_aligned End_ZeroPad_unaligned)

lemma stacked_End:
  assumes c: "coupled zzw"
  shows "map_sum id (map_prod id (\<lambda>zzw. (end_called zzw, wrapped (wrapped zzw))))
           (End (ZeroPad_vtable (ZeroPad_vtable U)) zzw)
         = map_sum id (map_prod id (\<lambda>zw. (end_called zw, wrapped zw)))
             (End (ZeroPad_vtable U) (wrapped zzw))
       \<and> (\<forall>r zzw'. End (ZeroPad_vtable (ZeroPad_vtable U)) zzw = Inr (r, zzw') \<longrightarrow>
            \<not> end_called (wrapped zzw) \<longrightarrow> end_called (wrapped zzw') \<longrightarrow>
            bytes_written_mod_block_size (derived (wrapped zzw')) = 0)"
proof (cases "bytes_written_mod_block_size (derived zzw) = 0")
  case True
  with c have inner0: "bytes_written_mod_block_size (derived (wrapped zzw)) = 0"
    by (simp add: coupled_def)
  have outer: "End (ZeroPad_vtable (ZeroPad_vtable U)) zzw
                 = finalize_without_padding (ZeroPad_vtable U) zzw"
    using True by (simp add: End_ZeroPad_cases)
  have inner: "End (ZeroPad_vtable U) (wrapped zzw) = finalize_without_padding U (wrapped zzw)"
    using inner0 by (simp add: End_ZeroPad_cases)
  show ?thesis
  proof (cases "End U (wrapped (wrapped zzw))")
    case (Inl f)
    then show ?thesis
      unfolding outer inner
      by (simp add: finalize_without_padding_def wrapped_def inner [unfolded wrapped_def finalize_without_padding_def])
  next
    case (Inr p)
    obtain r u where p: "p = (r, u)" by (cases p)
    from Inr p inner0 show ?thesis
      unfolding outer
      by (simp add: finalize_without_padding_def wrapped_def
          inner [unfolded wrapped_def finalize_without_padding_def])
  qed
next
  case False
  with c have nz: "z_block_size (derived zzw) \<noteq> 0"
    and ib: "z_block_size (derived (wrapped zzw)) = z_block_size (derived zzw)"
    and ic: "bytes_written_mod_block_size (derived (wrapped zzw))
              = bytes_written_mod_block_size (derived zzw)"
    by (auto simp: coupled_def)
  let ?n = "unat (z_block_size (derived zzw) - bytes_written_mod_block_size (derived zzw))"
  have outer: "End (ZeroPad_vtable (ZeroPad_vtable U)) zzw
                 = finalize_with_padding (ZeroPad_vtable U) ?n zzw"
    using False by (simp add: End_ZeroPad_cases)
  have inner: "End (ZeroPad_vtable U) (wrapped zzw) = finalize_with_padding U ?n (wrapped zzw)"
    using False ib ic by (simp add: End_ZeroPad_cases)
  show ?thesis
  proof (cases rule: Write_cases [of U "replicate ?n 0" "wrapped (wrapped zzw)"])
    case (fault f)
    note w1 = ZeroPad_Write_Inl [OF fault]
    from fault w1 show ?thesis
      unfolding outer inner
      by (simp add: finalize_with_padding_def wrapped_def
          w1 [unfolded wrapped_def] fault [unfolded wrapped_def])
  next
    case (failure u)
    note w1 = ZeroPad_Write_False [OF failure]
    from False ic show ?thesis
      unfolding outer inner
      by (simp add: finalize_with_padding_def wrapped_def
          w1 [unfolded wrapped_def] failure [unfolded wrapped_def])
  next
    case (success u)
    let ?zw1 = "(wrapped zzw)\<lparr>derived := (derived (wrapped zzw))
                  \<lparr>underlying_extent_writer := u, bytes_written_mod_block_size := 0\<rparr>\<rparr>"
    have w1: "Write (ZeroPad_vtable U) (replicate ?n 0) (wrapped zzw) = Inr (True, ?zw1)"
      using ZeroPad_Write_True [OF success] nz ib ic by simp
    have e1: "End (ZeroPad_vtable U) ?zw1 = finalize_without_padding U ?zw1"
      by (simp add: End_ZeroPad_cases)
    show ?thesis
    proof (cases "End U u")
      case (Inl f)
      then show ?thesis
        unfolding outer inner
        by (simp add: finalize_with_padding_def finalize_without_padding_def wrapped_def
          w1 [unfolded wrapped_def] success [unfolded wrapped_def]
          e1 [unfolded wrapped_def finalize_without_padding_def])
    next
      case (Inr p)
      obtain r u' where p: "p = (r, u')" by (cases p)
      from Inr p show ?thesis
        unfolding outer inner
        by (simp add: finalize_with_padding_def finalize_without_padding_def wrapped_def
          w1 [unfolded wrapped_def] success [unfolded wrapped_def]
          e1 [unfolded wrapped_def finalize_without_padding_def])
    qed
  qed
qed


lemma walk_nil: "Direct_walk pw d [] = Inr (None, d)"
  by (simp add: Direct_walk.simps [of pw d "[]"])

lemma walk_no_extent:
  "bytes \<noteq> [] \<Longrightarrow> length (extents d) \<le> next_extent_index d \<Longrightarrow>
   Direct_walk pw d bytes = Inr (Some ExhaustedExtents, d)"
  by (simp add: Direct_walk.simps [of pw d bytes])

lemma walk_advance:
  "bytes \<noteq> [] \<Longrightarrow> next_extent_index d < length (extents d) \<Longrightarrow> remaining_in_extent d = 0 \<Longrightarrow>
   Direct_walk pw d bytes =
     (if Suc (next_extent_index d) < length (extents d) then
        Direct_walk pw (d\<lparr>next_extent_index := Suc (next_extent_index d),
                          extent_bytes_written := 0\<rparr>) bytes
      else Inr (Some ExhaustedExtents, d))"
  by (simp add: Direct_walk.simps [of pw d bytes] Let_def)

lemma walk_hole:
  "bytes \<noteq> [] \<Longrightarrow> next_extent_index d < length (extents d) \<Longrightarrow> remaining_in_extent d \<noteq> 0 \<Longrightarrow>
   start_block (extents d ! next_extent_index d) = kSparseHole \<Longrightarrow>
   Direct_walk pw d bytes =
     Direct_walk pw
       (d\<lparr>extent_bytes_written :=
            extent_bytes_written d + min (length bytes) (remaining_in_extent d)\<rparr>)
       (drop (min (length bytes) (remaining_in_extent d)) bytes)"
  by (simp add: Direct_walk.simps [of pw d bytes] Let_def)

lemma walk_write:
  "bytes \<noteq> [] \<Longrightarrow> next_extent_index d < length (extents d) \<Longrightarrow> remaining_in_extent d \<noteq> 0 \<Longrightarrow>
   start_block (extents d ! next_extent_index d) \<noteq> kSparseHole \<Longrightarrow>
   Direct_walk pw d bytes =
     (case fd d of
        None \<Rightarrow> Inl NullTarget
      | Some t \<Rightarrow>
          (case pw t (unat (start_block (extents d ! next_extent_index d)) * d_block_size d
                       + extent_bytes_written d)
                  (take (min (length bytes) (remaining_in_extent d)) bytes) of
             None \<Rightarrow> Inr (Some IOFailure, d)
           | Some t' \<Rightarrow>
               Direct_walk pw
                 (d\<lparr>fd := Some t',
                    extent_bytes_written :=
                      extent_bytes_written d + min (length bytes) (remaining_in_extent d)\<rparr>)
                 (drop (min (length bytes) (remaining_in_extent d)) bytes)))"
  by (simp add: Direct_walk.simps [of pw d bytes] Let_def)

lemma length_extent_layout: "length (extent_layout bs e) = unat (num_blocks e) * bs"
  by (simp add: extent_layout_def)

lemma length_layout: "length (layout bs exts) = capacity bs exts"
  by (induction exts)
     (simp_all add: layout_def capacity_def length_extent_layout distrib_left mult.commute)

lemma layout_drop:
  "i < length exts \<Longrightarrow>
   layout bs (drop i exts) = extent_layout bs (exts ! i) @ layout bs (drop (Suc i) exts)"
  by (simp add: layout_def flip: Cons_nth_drop_Suc)

lemma ahead_in_extent:
  assumes "next_extent_index d < length (extents d)"
  shows "ahead d =
           drop (extent_bytes_written d)
             (extent_layout (d_block_size d) (extents d ! next_extent_index d)
              @ layout (d_block_size d) (drop (Suc (next_extent_index d)) (extents d)))"
  using assms by (simp add: ahead_def layout_drop)

lemma remaining_le_ahead:
  assumes "next_extent_index d < length (extents d)"
  shows "remaining_in_extent d \<le> length (ahead d)"
  using assms by (simp add: ahead_in_extent length_extent_layout)

lemma ahead_advance:
  assumes "next_extent_index d < length (extents d)" and "cursor_ok d"
      and "remaining_in_extent d = 0"
  shows "ahead (d\<lparr>next_extent_index := Suc (next_extent_index d), extent_bytes_written := 0\<rparr>)
           = ahead d"
proof -
  from assms have "extent_bytes_written d
      = length (extent_layout (d_block_size d) (extents d ! next_extent_index d))"
    by (simp add: cursor_ok_def length_extent_layout)
  then show ?thesis
    using assms(1) by (simp add: ahead_in_extent) (simp add: ahead_def)
qed

lemma ahead_consume:
  "ahead (d\<lparr>extent_bytes_written := extent_bytes_written d + n\<rparr>) = drop n (ahead d)"
  "ahead (d\<lparr>fd := x, extent_bytes_written := extent_bytes_written d + n\<rparr>) = drop n (ahead d)"
  by (simp_all add: ahead_def add.commute)

lemma cursor_ok_consume:
  assumes "next_extent_index d < length (extents d)" and "n \<le> remaining_in_extent d"
    and "remaining_in_extent d \<noteq> 0"
  shows "cursor_ok (d\<lparr>extent_bytes_written := extent_bytes_written d + n\<rparr>)"
    and "cursor_ok (d\<lparr>fd := x, extent_bytes_written := extent_bytes_written d + n\<rparr>)"
  using assms by (simp_all add: cursor_ok_def)

lemma consume_rest:
  assumes "n \<le> length bytes" and "n \<le> length xs"
      and "length (drop n bytes) \<le> length (drop n xs)"
      and "ys = drop (length (drop n bytes)) (drop n xs)"
  shows "length bytes \<le> length xs \<and> ys = drop (length bytes) xs"
  using assms by simp

lemma walk_success:
  assumes "cursor_ok d" and "Direct_walk pw d bytes = Inr (None, d')"
  shows "cursor_ok d' \<and> d_block_size d' = d_block_size d \<and> extents d' = extents d
       \<and> length bytes \<le> length (ahead d) \<and> ahead d' = drop (length bytes) (ahead d)"
  using assms
proof (induction pw d bytes arbitrary: d' rule: Direct_walk.induct)
  case (1 pw d bytes)
  show ?case
  proof (cases "bytes = []")
    case True
    with "1.prems" show ?thesis by (simp add: walk_nil)
  next
    case ne: False
    show ?thesis
    proof (cases "length (extents d) \<le> next_extent_index d")
      case True
      with ne "1.prems" show ?thesis by (simp add: walk_no_extent)
    next
      case nle: False
      then have inr: "next_extent_index d < length (extents d)" by simp
      show ?thesis
      proof (cases "remaining_in_extent d = 0")
        case True
        note w = walk_advance [OF ne inr True, of pw]
        show ?thesis
        proof (cases "Suc (next_extent_index d) < length (extents d)")
          case nxt: True
          let ?d1 = "d\<lparr>next_extent_index := Suc (next_extent_index d), extent_bytes_written := 0\<rparr>"
          from w nxt "1.prems"(2) have run: "Direct_walk pw ?d1 bytes = Inr (None, d')"
            by (simp only: if_True)
          have ok: "cursor_ok ?d1" by (simp add: cursor_ok_def)
          note ih = "1.IH"(1) [OF ne nle refl refl True nxt ok run]
          have same: "ahead ?d1 = ahead d"
            by (rule ahead_advance [OF inr "1.prems"(1) True])
          from ih show ?thesis
            unfolding same by simp
        next
          case False
          with w "1.prems"(2) show ?thesis by simp
        qed
      next
        case pos: False
        define n where "n = min (length bytes) (remaining_in_extent d)"
        have n1: "n \<le> length bytes" and n3: "n \<le> remaining_in_extent d"
          by (simp_all add: n_def)
        from n3 remaining_le_ahead [OF inr] have n2: "n \<le> length (ahead d)"
          by (rule le_trans)
        show ?thesis
        proof (cases "start_block (extents d ! next_extent_index d) = kSparseHole")
          case True
          let ?d1 = "d\<lparr>extent_bytes_written := extent_bytes_written d + n\<rparr>"
          from walk_hole [OF ne inr pos True, of pw, folded n_def] "1.prems"(2)
          have run: "Direct_walk pw ?d1 (drop n bytes) = Inr (None, d')" by simp
          have ok: "cursor_ok ?d1" by (rule cursor_ok_consume(1) [OF inr n3 pos])
          note ih = "1.IH"(2) [OF ne nle refl refl pos refl True, folded n_def, OF ok run]
          from ih have a: "cursor_ok d'" "d_block_size d' = d_block_size d" "extents d' = extents d"
            and b: "length (drop n bytes) \<le> length (drop n (ahead d))"
            and c: "ahead d' = drop (length (drop n bytes)) (drop n (ahead d))"
            by (simp_all add: ahead_consume)
          from consume_rest [OF n1 n2 b c] a show ?thesis by simp
        next
          case False
          from walk_write [OF ne inr pos False, of pw, folded n_def] "1.prems"(2)
          obtain t t' where t: "fd d = Some t"
            and p: "pw t (unat (start_block (extents d ! next_extent_index d)) * d_block_size d
                          + extent_bytes_written d) (take n bytes) = Some t'"
            and run: "Direct_walk pw
                        (d\<lparr>fd := Some t',
                           extent_bytes_written := extent_bytes_written d + n\<rparr>)
                        (drop n bytes) = Inr (None, d')"
            by (auto split: option.splits)
          let ?d1 = "d\<lparr>fd := Some t', extent_bytes_written := extent_bytes_written d + n\<rparr>"
          have ok: "cursor_ok ?d1" by (rule cursor_ok_consume(2) [OF inr n3 pos])
          note ih = "1.IH"(3) [OF ne nle refl refl pos refl False t, folded n_def, OF p ok run]
          from ih have a: "cursor_ok d'" "d_block_size d' = d_block_size d" "extents d' = extents d"
            and b: "length (drop n bytes) \<le> length (drop n (ahead d))"
            and c: "ahead d' = drop (length (drop n bytes)) (drop n (ahead d))"
            by (simp_all add: ahead_consume)
          from consume_rest [OF n1 n2 b c] a show ?thesis by simp
        qed
      qed
    qed
  qed
qed


lemma ahead_no_extent:
  "length (extents d) \<le> next_extent_index d \<Longrightarrow> ahead d = []"
  by (simp add: ahead_def layout_def)

lemma ahead_last_full:
  assumes "next_extent_index d < length (extents d)" and "remaining_in_extent d = 0"
    and "\<not> Suc (next_extent_index d) < length (extents d)"
  shows "ahead d = []"
  using assms by (simp add: ahead_in_extent length_extent_layout) (simp add: layout_def)

lemma fits_rest:
  assumes "n \<le> length bytes" and "n \<le> length xs"
  shows "length (drop n bytes) \<le> length (drop n xs) \<longleftrightarrow> length bytes \<le> length xs"
  using assms by auto

lemma walk_total:
  assumes "cursor_ok d" and "\<forall>t off b. pw t off b \<noteq> None" and "fd d \<noteq> None"
  shows "\<exists>d'. Direct_walk pw d bytes
                = Inr (if length bytes \<le> length (ahead d) then None
                       else Some ExhaustedExtents, d')
              \<and> fd d' \<noteq> None"
  using assms
proof (induction pw d bytes rule: Direct_walk.induct)
  case (1 pw d bytes)
  show ?case
  proof (cases "bytes = []")
    case True
    with "1.prems" show ?thesis by (simp add: walk_nil)
  next
    case ne: False
    show ?thesis
    proof (cases "length (extents d) \<le> next_extent_index d")
      case True
      with ne "1.prems" show ?thesis by (simp add: walk_no_extent ahead_no_extent)
    next
      case nle: False
      then have inr: "next_extent_index d < length (extents d)" by simp
      show ?thesis
      proof (cases "remaining_in_extent d = 0")
        case True
        note w = walk_advance [OF ne inr True, of pw]
        show ?thesis
        proof (cases "Suc (next_extent_index d) < length (extents d)")
          case nxt: True
          let ?d1 = "d\<lparr>next_extent_index := Suc (next_extent_index d), extent_bytes_written := 0\<rparr>"
          from w nxt have run: "Direct_walk pw d bytes = Direct_walk pw ?d1 bytes"
            by (simp only: if_True)
          have ok: "cursor_ok ?d1" by (simp add: cursor_ok_def)
          have nn: "fd ?d1 \<noteq> None" using "1.prems"(3) by simp
          note ih = "1.IH"(1) [OF ne nle refl refl True nxt ok "1.prems"(2) nn]
          have same: "ahead ?d1 = ahead d"
            by (rule ahead_advance [OF inr "1.prems"(1) True])
          from ih show ?thesis
            unfolding same run .
        next
          case False
          from w False have "Direct_walk pw d bytes = Inr (Some ExhaustedExtents, d)"
            by (simp only: if_False)
          with ne "1.prems"(3) ahead_last_full [OF inr True False] show ?thesis
            by simp
        qed
      next
        case pos: False
        define n where "n = min (length bytes) (remaining_in_extent d)"
        have n1: "n \<le> length bytes" and n3: "n \<le> remaining_in_extent d"
          by (simp_all add: n_def)
        from n3 remaining_le_ahead [OF inr] have n2: "n \<le> length (ahead d)"
          by (rule le_trans)
        note fits = fits_rest [OF n1 n2]
        show ?thesis
        proof (cases "start_block (extents d ! next_extent_index d) = kSparseHole")
          case True
          let ?d1 = "d\<lparr>extent_bytes_written := extent_bytes_written d + n\<rparr>"
          note run = walk_hole [OF ne inr pos True, of pw, folded n_def]
          have ok: "cursor_ok ?d1" by (rule cursor_ok_consume(1) [OF inr n3 pos])
          have nn: "fd ?d1 \<noteq> None" using "1.prems"(3) by simp
          note ih = "1.IH"(2) [OF ne nle refl refl pos refl True, folded n_def,
              OF ok "1.prems"(2) nn]
          from ih show ?thesis
            unfolding run ahead_consume fits .
        next
          case False
          from "1.prems"(3) obtain t where t: "fd d = Some t" by auto
          from "1.prems"(2) obtain t' where
            p: "pw t (unat (start_block (extents d ! next_extent_index d)) * d_block_size d
                          + extent_bytes_written d) (take n bytes) = Some t'"
            by (meson option.exhaust)
          let ?d1 = "d\<lparr>fd := Some t', extent_bytes_written := extent_bytes_written d + n\<rparr>"
          from walk_write [OF ne inr pos False, of pw, folded n_def] t p
          have run: "Direct_walk pw d bytes = Direct_walk pw ?d1 (drop n bytes)"
            by simp
          have ok: "cursor_ok ?d1" by (rule cursor_ok_consume(2) [OF inr n3 pos])
          have nn: "fd ?d1 \<noteq> None" by simp
          note ih = "1.IH"(3) [OF ne nle refl refl pos refl False t, folded n_def,
              OF p ok "1.prems"(2) nn]
          from ih show ?thesis
            unfolding run ahead_consume fits .
        qed
      qed
    qed
  qed
qed


lemma take_ahead:
  assumes "next_extent_index d < length (extents d)" and "n \<le> remaining_in_extent d"
    and "remaining_in_extent d \<noteq> 0"
  shows "take n (ahead d)
           = (if start_block (extents d ! next_extent_index d) = kSparseHole
              then replicate n None
              else map (\<lambda>k. Some (unat (start_block (extents d ! next_extent_index d))
                                     * d_block_size d + k))
                     [extent_bytes_written d ..< extent_bytes_written d + n])"
proof -
  let ?e = "extents d ! next_extent_index d"
  let ?N = "unat (num_blocks ?e) * d_block_size d"
  let ?A = "extent_layout (d_block_size d) ?e"
  from assms have fit: "extent_bytes_written d + n \<le> ?N"
    by simp
  then have "take n (ahead d) = take n (drop (extent_bytes_written d) ?A)"
    using assms(1) by (simp add: ahead_in_extent length_extent_layout)
  also have "\<dots> = (if start_block ?e = kSparseHole then replicate n None
              else map (\<lambda>k. Some (unat (start_block ?e) * d_block_size d + k))
                     [extent_bytes_written d ..< extent_bytes_written d + n])"
  proof (cases "start_block ?e = kSparseHole")
    case True
    from assms(2) have "min n (?N - extent_bytes_written d) = n"
      by (rule min_absorb1)
    with True show ?thesis
      by (simp add: extent_layout_def)
  next
    case False
    have "take n [extent_bytes_written d ..< ?N]
            = [extent_bytes_written d ..< extent_bytes_written d + n]"
      by (rule take_upt [OF fit])
    with False show ?thesis
      by (simp add: extent_layout_def take_map drop_map)
  qed
  finally show ?thesis .
qed

lemma placement_nil: "placement places [] = []"
  by (simp add: placement_def)

lemma placement_split:
  assumes "n \<le> length places"
  shows "placement places data
           = placement (take n places) (take n data) @ placement (drop n places) (drop n data)"
proof -
  have "zip places data = zip (take n places @ drop n places) data"
    by simp
  also have "\<dots> = zip (take n places) (take n data) @ zip (drop n places) (drop n data)"
    using assms by (simp only: zip_append1 length_take min_absorb2)
  finally show ?thesis
    by (simp add: placement_def)
qed

lemma placement_hole: "placement (replicate n None) data = []"
proof (induction n arbitrary: data)
  case 0
  then show ?case by (simp add: placement_def)
next
  case (Suc n)
  show ?case
  proof (cases data)
    case Nil
    then show ?thesis by (simp add: placement_def)
  next
    case (Cons b data')
    with Suc.IH [of data'] show ?thesis by (simp add: placement_def)
  qed
qed

lemma placement_run:
  "placement (map (\<lambda>k. Some (a + k)) [i ..< i + n]) data = zip [a + i ..< a + i + n] data"
proof (induction n arbitrary: i data)
  case 0
  then show ?case by (simp add: placement_def)
next
  case (Suc n)
  have u: "[i ..< i + Suc n] = i # [Suc i ..< Suc i + n]"
    by (simp add: upt_rec)
  have v: "[a + i ..< a + i + Suc n] = (a + i) # [a + Suc i ..< a + Suc i + n]"
    by (simp add: upt_rec)
  show ?case
  proof (cases data)
    case Nil
    then show ?thesis by (simp add: placement_def)
  next
    case (Cons b data')
    with Suc.IH [of "Suc i" data'] show ?thesis
      unfolding u v by (simp add: placement_def)
  qed
qed

lemma stores_append: "stores (t @ [(a, bytes)]) = stores t @ zip [a ..< a + length bytes] bytes"
  by (simp add: stores_def)

lemma walk_journal:
  assumes "cursor_ok d" and "fd d = Some t"
      and "Direct_walk journal_pwrite d bytes = Inr (None, d')"
  shows "\<exists>t'. fd d' = Some t' \<and> stores t' = stores t @ placement (ahead d) bytes"
  using assms
proof (induction journal_pwrite d bytes arbitrary: t d' rule: Direct_walk.induct)
  case (1 d bytes)
  show ?case
  proof (cases "bytes = []")
    case True
    with "1.prems" show ?thesis by (simp add: walk_nil placement_nil)
  next
    case ne: False
    show ?thesis
    proof (cases "length (extents d) \<le> next_extent_index d")
      case True
      with ne "1.prems" show ?thesis by (simp add: walk_no_extent)
    next
      case nle: False
      then have inr: "next_extent_index d < length (extents d)" by simp
      show ?thesis
      proof (cases "remaining_in_extent d = 0")
        case True
        note w = walk_advance [OF ne inr True, of journal_pwrite]
        show ?thesis
        proof (cases "Suc (next_extent_index d) < length (extents d)")
          case nxt: True
          let ?d1 = "d\<lparr>next_extent_index := Suc (next_extent_index d), extent_bytes_written := 0\<rparr>"
          from w nxt "1.prems"(3) have run: "Direct_walk journal_pwrite ?d1 bytes = Inr (None, d')"
            by (simp only: if_True)
          have ok: "cursor_ok ?d1" by (simp add: cursor_ok_def)
          have t1: "fd ?d1 = Some t" using "1.prems"(2) by simp
          note ih = "1.hyps"(1) [OF ne nle refl refl True nxt ok t1 run]
          have same: "ahead ?d1 = ahead d"
            by (rule ahead_advance [OF inr "1.prems"(1) True])
          from ih show ?thesis
            unfolding same .
        next
          case False
          with w "1.prems"(3) show ?thesis by simp
        qed
      next
        case pos: False
        define n where "n = min (length bytes) (remaining_in_extent d)"
        have n1: "n \<le> length bytes" and n3: "n \<le> remaining_in_extent d"
          by (simp_all add: n_def)
        from n3 remaining_le_ahead [OF inr] have n2: "n \<le> length (ahead d)"
          by (rule le_trans)
        note split = placement_split [OF n2, of bytes]
        note tk = take_ahead [OF inr n3 pos]
        show ?thesis
        proof (cases "start_block (extents d ! next_extent_index d) = kSparseHole")
          case True
          let ?d1 = "d\<lparr>extent_bytes_written := extent_bytes_written d + n\<rparr>"
          from walk_hole [OF ne inr pos True, of journal_pwrite, folded n_def] "1.prems"(3)
          have run: "Direct_walk journal_pwrite ?d1 (drop n bytes) = Inr (None, d')" by simp
          have ok: "cursor_ok ?d1" by (rule cursor_ok_consume(1) [OF inr n3 pos])
          have t1: "fd ?d1 = Some t" using "1.prems"(2) by simp
          note ih = "1.hyps"(2) [OF ne nle refl refl pos refl True, folded n_def, OF ok t1 run]
          from tk True have "placement (take n (ahead d)) (take n bytes) = []"
            by (simp add: placement_hole)
          with ih split show ?thesis
            by (simp add: ahead_consume)
        next
          case False
          let ?a = "unat (start_block (extents d ! next_extent_index d)) * d_block_size d"
          let ?t1 = "t @ [(?a + extent_bytes_written d, take n bytes)]"
          let ?d1 = "d\<lparr>fd := Some ?t1, extent_bytes_written := extent_bytes_written d + n\<rparr>"
          have p: "journal_pwrite t (?a + extent_bytes_written d) (take n bytes) = Some ?t1"
            by (simp add: journal_pwrite_def)
          from walk_write [OF ne inr pos False, of journal_pwrite, folded n_def] "1.prems"(2,3) p
          have run: "Direct_walk journal_pwrite ?d1 (drop n bytes) = Inr (None, d')"
            by simp
          have ok: "cursor_ok ?d1" by (rule cursor_ok_consume(2) [OF inr n3 pos])
          have t1: "fd ?d1 = Some ?t1" by simp
          note ih = "1.hyps"(3) [OF ne nle refl refl pos refl False "1.prems"(2),
              folded n_def, OF p ok t1 run]
          from tk False
          have "placement (take n (ahead d)) (take n bytes)
                  = zip [?a + extent_bytes_written d ..< ?a + extent_bytes_written d + n]
                      (take n bytes)"
            by (simp add: placement_run)
          moreover have "stores ?t1
              = stores t @ zip [?a + extent_bytes_written d ..< ?a + extent_bytes_written d + n]
                             (take n bytes)"
            using n1 by (simp add: stores_append min_absorb2)
          ultimately show ?thesis
            using ih split by (simp add: ahead_consume)
        qed
      qed
    qed
  qed
qed


lemma Write_Direct:
  "Write (Direct_vtable pw) b w =
     (case Direct_walk pw (derived w) b of
        Inl f \<Rightarrow> Inl f
      | Inr (e, d') \<Rightarrow> Inr (e = None, w\<lparr>derived := d'\<rparr>))"
  by (simp add: Write_def Direct_vtable_def Direct_Write_def split: sum.splits prod.splits)

lemma Write_Direct_success:
  "Write (Direct_vtable pw) b w = Inr (True, w') \<Longrightarrow>
   Direct_walk pw (derived w) b = Inr (None, derived w')"
  by (auto simp: Write_Direct split: sum.splits prod.splits)

lemma Init_Direct:
  assumes "Init (Direct_vtable pw) (Some t) exts bs (new_ExtentWriter new_DirectExtentWriter)
             = Inr (r0, w1)"
  shows "cursor_ok (derived w1)" and "fd (derived w1) = Some t"
    and "ahead (derived w1) = layout (unat bs) exts"
    and "d_block_size (derived w1) = unat bs" and "extents (derived w1) = exts"
  using assms
  by (auto simp: Init_def Direct_vtable_def Direct_Init_def new_ExtentWriter_def
      new_DirectExtentWriter_def cursor_ok_def ahead_def)

lemma Writes_success:
  assumes "cursor_ok (derived w)" and "Writes (Direct_vtable pw) chunks w = Inr (rs, w')"
      and "\<forall>x \<in> set rs. x"
  shows "cursor_ok (derived w')
       \<and> sum_list (map length chunks) \<le> length (ahead (derived w))
       \<and> ahead (derived w') = drop (sum_list (map length chunks)) (ahead (derived w))"
  using assms
proof (induction chunks arbitrary: w rs)
  case Nil
  then show ?case by simp
next
  case (Cons b chunks)
  from Cons.prems(2) obtain r w1 rs' where
    w: "Write (Direct_vtable pw) b w = Inr (r, w1)" and
    ws: "Writes (Direct_vtable pw) chunks w1 = Inr (rs', w')" and
    rs: "rs = r # rs'"
    by (auto split: sum.splits prod.splits)
  from rs Cons.prems(3) have r: "r" and rs': "\<forall>x \<in> set rs'. x"
    by auto
  from w r have "Direct_walk pw (derived w) b = Inr (None, derived w1)"
    by (simp add: Write_Direct_success)
  from walk_success [OF Cons.prems(1) this]
  have ok1: "cursor_ok (derived w1)"
    and le1: "length b \<le> length (ahead (derived w))"
    and a1: "ahead (derived w1) = drop (length b) (ahead (derived w))"
    by simp_all
  from Cons.IH [OF ok1 ws rs'] le1 show ?case
    unfolding a1 by (auto simp: add.commute)
qed

lemma Writes_total:
  assumes "cursor_ok (derived w)" and "\<forall>t off b. pw t off b \<noteq> None"
      and "fd (derived w) \<noteq> None"
      and "sum_list (map length chunks) \<le> length (ahead (derived w))"
  shows "\<exists>w'. Writes (Direct_vtable pw) chunks w = Inr (replicate (length chunks) True, w')
              \<and> fd (derived w') \<noteq> None"
  using assms
proof (induction chunks arbitrary: w)
  case Nil
  then show ?case by simp
next
  case (Cons b chunks)
  from Cons.prems(4) have le: "length b \<le> length (ahead (derived w))"
    by simp
  from walk_total [OF Cons.prems(1,2,3), of b] le obtain d1 where
    run: "Direct_walk pw (derived w) b = Inr (None, d1)" and nn: "fd d1 \<noteq> None"
    by auto
  from walk_success [OF Cons.prems(1) run]
  have ok1: "cursor_ok d1" and a1: "ahead d1 = drop (length b) (ahead (derived w))"
    by simp_all
  let ?w1 = "w\<lparr>derived := d1\<rparr>"
  from run have w: "Write (Direct_vtable pw) b w = Inr (True, ?w1)"
    by (simp add: Write_Direct)
  from Cons.prems(4) a1 have "sum_list (map length chunks) \<le> length (ahead (derived ?w1))"
    by simp
  from Cons.IH [of ?w1] ok1 Cons.prems(2) nn this obtain w' where
    "Writes (Direct_vtable pw) chunks ?w1 = Inr (replicate (length chunks) True, w')"
    "fd (derived w') \<noteq> None"
    by auto
  with w show ?case by simp
qed

lemma placement_prefix:
  "placement places data = placement (take (length data) places) data"
proof (cases "length data \<le> length places")
  case True
  from placement_split [OF True, of data] show ?thesis
    by (simp add: placement_nil)
next
  case False
  then show ?thesis by simp
qed

lemma Writes_journal:
  assumes "cursor_ok (derived w)" and "fd (derived w) = Some t"
      and "Writes (Direct_vtable journal_pwrite) chunks w = Inr (rs, w')"
      and "\<forall>x \<in> set rs. x"
  shows "\<exists>t'. fd (derived w') = Some t'
            \<and> stores t' = stores t @ placement (ahead (derived w)) (concat chunks)"
  using assms
proof (induction chunks arbitrary: w rs t)
  case Nil
  then show ?case by (simp add: placement_nil)
next
  case (Cons b chunks)
  from Cons.prems(3) obtain r w1 rs' where
    w: "Write (Direct_vtable journal_pwrite) b w = Inr (r, w1)" and
    ws: "Writes (Direct_vtable journal_pwrite) chunks w1 = Inr (rs', w')" and
    rs: "rs = r # rs'"
    by (auto split: sum.splits prod.splits)
  from rs Cons.prems(4) have r: "r" and rs': "\<forall>x \<in> set rs'. x"
    by auto
  from w r have walk: "Direct_walk journal_pwrite (derived w) b = Inr (None, derived w1)"
    by (simp add: Write_Direct_success)
  from walk_success [OF Cons.prems(1) walk]
  have ok1: "cursor_ok (derived w1)"
    and le1: "length b \<le> length (ahead (derived w))"
    and a1: "ahead (derived w1) = drop (length b) (ahead (derived w))"
    by simp_all
  from walk_journal [OF Cons.prems(1,2) walk] obtain t1 where
    t1: "fd (derived w1) = Some t1"
    and s1: "stores t1 = stores t @ placement (ahead (derived w)) b"
    by auto
  from Cons.IH [OF ok1 t1 ws rs'] obtain t' where
    t': "fd (derived w') = Some t'"
    and s': "stores t' = stores t1 @ placement (ahead (derived w1)) (concat chunks)"
    by auto
  have "placement (ahead (derived w)) (b @ concat chunks)
          = placement (take (length b) (ahead (derived w))) b
            @ placement (drop (length b) (ahead (derived w))) (concat chunks)"
    using placement_split [OF le1, of "b @ concat chunks"] by simp
  also have "placement (take (length b) (ahead (derived w))) b = placement (ahead (derived w)) b"
    by (rule placement_prefix [symmetric])
  finally show ?case
    using t' s' s1 a1 by simp
qed

lemma placement_Some: "placement (map Some as) data = zip as data"
proof (induction as arbitrary: data)
  case Nil
  then show ?case by (simp add: placement_def)
next
  case (Cons a as)
  show ?case
  proof (cases data)
    case Nil
    then show ?thesis by (simp add: placement_def)
  next
    case (Cons b data')
    with Cons.IH [of data'] show ?thesis by (simp add: placement_def)
  qed
qed

lemma zip_as_map:
  assumes "length data \<le> length as"
  shows "zip as data = map (\<lambda>i. (as ! i, data ! i)) [0 ..< length data]"
proof (rule nth_equalityI)
  show "length (zip as data) = length (map (\<lambda>i. (as ! i, data ! i)) [0 ..< length data])"
    using assms by simp
next
  fix i
  assume "i < length (zip as data)"
  then show "zip as data ! i = map (\<lambda>i. (as ! i, data ! i)) [0 ..< length data] ! i"
    by simp
qed

lemma contents_of_distinct_stores:
  assumes "stores t = map (\<lambda>i. (f i, g i)) [0 ..< n]" and "inj_on f {0 ..< n}" and "i < n"
  shows "contents t (f i) = Some (g i)"
proof -
  have "map fst (stores t) = map f [0 ..< n]"
    by (simp add: assms(1) o_def)
  moreover have "distinct (map f [0 ..< n])"
    using assms(2) by (simp add: distinct_map)
  ultimately have "distinct (map fst (rev (stores t)))"
    by (simp add: rev_map [symmetric])
  moreover have "(f i, g i) \<in> set (rev (stores t))"
    using assms(1,3) by auto
  ultimately show ?thesis
    unfolding contents_def by (rule map_of_is_SomeI)
qed

lemma example_layout:
  "layout 4096 demo_extents
     = map Some ([5 * 4096 ..< 5 * 4096 + 8192] @ [10 * 4096 ..< 10 * 4096 + 4096])"
proof -
  have run: "map (\<lambda>k. Some (a + k)) [0 ..< n] = map Some [a ..< a + n]" for a n :: nat
  proof -
    have "map (\<lambda>k. Some (a + k)) [0 ..< n] = map Some (map (\<lambda>i. i + a) [0 ..< n])"
      by (simp add: add.commute)
    also have "map (\<lambda>i. i + a) [0 ..< n] = [a ..< a + n]"
      by (simp only: map_add_upt add.commute [of a n])
    finally show ?thesis .
  qed
  have "layout 4096 demo_extents
          = map (\<lambda>k. Some (5 * 4096 + k)) [0 ..< 8192]
            @ map (\<lambda>k. Some (10 * 4096 + k)) [0 ..< 4096]"
    by (simp add: layout_def extent_layout_def demo_extents_def kSparseHole_def
        del: upt_rec_numeral)
  then show ?thesis
    by (simp only: run map_append)
qed

lemma example_nth:
  assumes "i < 12288"
  shows "([5 * 4096 ..< 5 * 4096 + 8192] @ [10 * 4096 ..< 10 * 4096 + 4096]) ! i
           = example_offset i"
  using assms by (simp add: nth_append example_offset_def del: upt_rec_numeral)

lemma example_placement:
  assumes "length data \<le> 12288"
  shows "placement (layout 4096 demo_extents) data
           = map (\<lambda>i. (example_offset i, data ! i)) [0 ..< length data]"
proof -
  let ?as = "[5 * 4096 ..< 5 * 4096 + 8192] @ [10 * 4096 ..< 10 * 4096 + (4096 :: nat)]"
  have len: "length ?as = 12288"
    by (simp del: upt_rec_numeral)
  have "placement (layout 4096 demo_extents) data = zip ?as data"
    by (simp only: example_layout placement_Some)
  also have "\<dots> = map (\<lambda>i. (?as ! i, data ! i)) [0 ..< length data]"
    by (rule zip_as_map) (simp only: len assms)
  also have "\<dots> = map (\<lambda>i. (example_offset i, data ! i)) [0 ..< length data]"
  proof (rule map_cong [OF refl])
    fix i
    assume "i \<in> set [0 ..< length data]"
    with assms have "i < 12288" by simp
    then show "(?as ! i, data ! i) = (example_offset i, data ! i)"
      by (simp only: example_nth)
  qed
  finally show ?thesis .
qed

lemma example_offset_inj: "inj_on example_offset {0 ..< n}"
  by (auto simp: inj_on_def example_offset_def split: if_splits)

lemma stacked_session:
  "map_sum id (map_prod id (\<lambda>zzw. (end_called zzw, wrapped (wrapped zzw))))
     (session (ZeroPad_vtable (ZeroPad_vtable U)) fd' exts bs chunks finalize
        (new_ExtentWriter (new_ZeroPadExtentWriter
           (new_ExtentWriter (new_ZeroPadExtentWriter u0)))))
   = map_sum id (map_prod id (\<lambda>zw. (end_called zw, wrapped zw)))
       (session (ZeroPad_vtable U) fd' exts bs chunks finalize
          (new_ExtentWriter (new_ZeroPadExtentWriter u0)))
   \<and> (\<forall>rs zzw.
        session (ZeroPad_vtable (ZeroPad_vtable U)) fd' exts bs chunks finalize
          (new_ExtentWriter (new_ZeroPadExtentWriter
             (new_ExtentWriter (new_ZeroPadExtentWriter u0)))) = Inr (rs, zzw)
        \<and> end_called (wrapped zzw)
        \<longrightarrow> bytes_written_mod_block_size (derived (wrapped zzw)) = 0)"
proof -
  let ?VV = "ZeroPad_vtable (ZeroPad_vtable U)" and ?V = "ZeroPad_vtable U"
  let ?zz0 = "new_ExtentWriter (new_ZeroPadExtentWriter
                (new_ExtentWriter (new_ZeroPadExtentWriter u0)))"
  let ?z0 = "new_ExtentWriter (new_ZeroPadExtentWriter u0)"
  note i = stacked_Init [of U fd' exts bs u0]
  show ?thesis
  proof (cases "Init ?VV fd' exts bs ?zz0")
    case (Inl f)
    with i have "Init ?V fd' exts bs ?z0 = Inl f"
      by simp
    with Inl show ?thesis
      by (simp add: session_def)
  next
    case (Inr p)
    obtain r0 zzw1 where p: "p = (r0, zzw1)" by (cases p)
    from i Inr p have i1: "Init ?V fd' exts bs ?z0 = Inr (r0, wrapped zzw1)"
      by simp
    from stacked_Init_coupled [of U fd' exts bs u0 r0 zzw1] Inr p
    have c1: "coupled zzw1" and f1: "\<not> end_called zzw1" "\<not> end_called (wrapped zzw1)"
      by simp_all
    note ws = stacked_Writes [OF c1, of U chunks]
    show ?thesis
    proof (cases "Writes ?VV chunks zzw1")
      case (Inl f)
      with ws have "Writes ?V chunks (wrapped zzw1) = Inl f"
        by simp
      with Inl Inr p i1 show ?thesis
        by (simp add: session_def)
    next
      case inr: (Inr q)
      obtain rs zzw2 where q: "q = (rs, zzw2)" by (cases q)
      from ws inr q have w2: "Writes ?V chunks (wrapped zzw1) = Inr (rs, wrapped zzw2)"
        by simp
      from ws inr q f1 have c2: "coupled zzw2" and f2: "\<not> end_called (wrapped zzw2)"
        and g2: "\<not> end_called zzw2"
        by auto
      note e = stacked_End [OF c2, of U]
      show ?thesis
      proof (cases finalize)
        case False
        with Inr p i1 inr q w2 f2 g2 show ?thesis
          by (simp add: session_def)
      next
        case True
        show ?thesis
        proof (cases "End ?VV zzw2")
          case (Inl f)
          with e have "End ?V (wrapped zzw2) = Inl f"
            by (cases "End ?V (wrapped zzw2)") simp_all
          with Inl Inr p i1 inr q w2 True show ?thesis
            by (simp add: session_def)
        next
          case inr3: (Inr t)
          obtain re zzw3 where t: "t = (re, zzw3)" by (cases t)
          from e inr3 t obtain zw3 where
            e3: "End ?V (wrapped zzw2) = Inr (re, zw3)" and
            o3: "end_called zw3 = end_called zzw3" "wrapped zw3 = wrapped (wrapped zzw3)"
            by (cases "End ?V (wrapped zzw2)") auto
          from e inr3 t f2
          have "end_called (wrapped zzw3) \<longrightarrow>
                  bytes_written_mod_block_size (derived (wrapped zzw3)) = 0"
            by simp
          with inr3 t e3 o3 Inr p i1 inr q w2 True show ?thesis
            by (simp add: session_def)
        qed
      qed
    qed
  qed
qed

lemma observe_calls:
  assumes "map_sum id (map_prod id (\<lambda>zzw. (end_called zzw, wrapped (wrapped zzw)))) A
           = map_sum id (map_prod id (\<lambda>zw. (end_called zw, wrapped zw))) B"
  shows "map_sum id (\<lambda>(rs, zzw). (rs, fst (derived (wrapped (wrapped zzw))))) A
         = map_sum id (\<lambda>(rs, zw). (rs, fst (derived (wrapped zw)))) B"
proof (cases A)
  case (Inl f)
  with assms show ?thesis by (cases B) simp_all
next
  case (Inr p)
  with assms show ?thesis by (cases B) (auto split: prod.splits)
qed

section \<open>Properties\<close>

text \<open>
  C4.  \<^verbatim>\<open>ZeroPadExtentWriter::Write\<close> with a positive block size forwards the same buffer
  to the wrapped writer.  When the forwarded call returns true the counter becomes
  \<open>(counter + count) mod block_size\<close> and the call returns true; when it returns false
  the call returns false and the decorator's own fields are as before; a fault of the
  wrapped writer is the fault of the call.  Read as numbers, the new counter is the sum
  modulo the block size whenever the sum fits \<^verbatim>\<open>size_t\<close>.
\<close>

theorem ZeroPad_Write_forwards:
  assumes "z_block_size z \<noteq> 0"
  shows "ZeroPad_Write U bytes z =
           (case Write U bytes (underlying_extent_writer z) of
              Inl f \<Rightarrow> Inl f
            | Inr (r, u) \<Rightarrow>
                Inr (r, z\<lparr>underlying_extent_writer := u,
                         bytes_written_mod_block_size :=
                           (if r then (bytes_written_mod_block_size z
                                        + word_of_nat (length bytes)) mod z_block_size z
                            else bytes_written_mod_block_size z)\<rparr>))
       \<and> (unat (bytes_written_mod_block_size z) + length bytes < 2 ^ 64 \<longrightarrow>
            unat ((bytes_written_mod_block_size z + word_of_nat (length bytes))
                   mod z_block_size z)
            = (unat (bytes_written_mod_block_size z) + length bytes) mod unat (z_block_size z))"
  using assms
  by (simp add: ZeroPad_Write_def Let_def unat_counter_step split: sum.splits prod.splits)

theorem ZeroPad_Write_forwards_witness:
  "z_block_size \<lparr>underlying_extent_writer = demo_direct, z_block_size = 4,
                 bytes_written_mod_block_size = 3\<rparr> \<noteq> 0
   \<and> map_sum id (\<lambda>(r, z). (r, bytes_written_mod_block_size z,
                            fd (derived (underlying_extent_writer z))))
        (ZeroPad_Write (Direct_vtable journal_pwrite) [1, 2]
           \<lparr>underlying_extent_writer = demo_direct, z_block_size = 4,
            bytes_written_mod_block_size = 3\<rparr>)
      = Inr (True, 1, Some [(20, [1, 2])])
   \<and> map_sum id (\<lambda>(r, z). (r, bytes_written_mod_block_size z,
                            fd (derived (underlying_extent_writer z))))
        (ZeroPad_Write (Direct_vtable journal_pwrite) [1, 2, 3, 4, 5, 6, 7, 8, 9, 10, 11, 12, 13]
           \<lparr>underlying_extent_writer = demo_direct, z_block_size = 4,
            bytes_written_mod_block_size = 3\<rparr>)
      = Inr (False, 3, Some [(20, [1, 2, 3, 4, 5, 6, 7, 8]), (40, [9, 10, 11, 12])])"
  using ZeroPad_Write_forwards [of
      "\<lparr>underlying_extent_writer = demo_direct, z_block_size = 4,
        bytes_written_mod_block_size = 3\<rparr>"
      "Direct_vtable journal_pwrite" "[1, 2]"]
  by (simp add: demo_defs)

text \<open>
  C7.  \<^verbatim>\<open>End\<close> sets \<^verbatim>\<open>end_called_\<close> and then runs the variant's \<^verbatim>\<open>EndImpl\<close>, for any
  variant; the flag is set whatever \<^verbatim>\<open>EndImpl\<close> returns.  \<^verbatim>\<open>Init\<close> and \<^verbatim>\<open>Write\<close> leave the
  flag as it is, and a new object has it unset.  The destructor logs its error line
  exactly when the flag is unset.
\<close>

theorem End_records_and_destructor_reports:
  "End V w =
     (case vEndImpl V (derived (w\<lparr>end_called := True\<rparr>)) of
        Inl f \<Rightarrow> Inl f
      | Inr (r, s) \<Rightarrow> Inr (r, \<lparr>end_called = True, derived = s\<rparr>))
   \<and> (End V w = Inr (r, w') \<longrightarrow> end_called w')
   \<and> (Init V fd' exts bs w = Inr (r, w') \<longrightarrow> end_called w' = end_called w)
   \<and> (Write V bytes w = Inr (r, w') \<longrightarrow> end_called w' = end_called w)
   \<and> \<not> end_called (new_ExtentWriter s0)
   \<and> destroy w = (if end_called w then [] else [''End() not called on ExtentWriter.''])
   \<and> (destroy w \<noteq> [] \<longleftrightarrow> \<not> end_called w)"
  by (auto simp: End_def Init_def Write_def new_ExtentWriter_def destroy_def Let_def
      split: sum.splits prod.splits)

theorem End_records_and_destructor_reports_witness:
  "End (Direct_vtable journal_pwrite) demo_direct = Inr (True, demo_direct\<lparr>end_called := True\<rparr>)
   \<and> end_called (demo_direct\<lparr>end_called := True\<rparr>)
   \<and> destroy (demo_direct\<lparr>end_called := True\<rparr>) = []
   \<and> Write (Direct_vtable journal_pwrite) [] demo_direct = Inr (True, demo_direct)
   \<and> destroy demo_direct = [''End() not called on ExtentWriter.'']"
  using End_records_and_destructor_reports [of "Direct_vtable journal_pwrite" demo_direct True
      "demo_direct\<lparr>end_called := True\<rparr>"]
  by (simp add: demo_defs destroy_def)

text \<open>
  C9.  After a forwarded write that returned true, \<^verbatim>\<open>ZeroPadExtentWriter::Write\<close> reduces
  the counter modulo \<^verbatim>\<open>block_size_\<close>: with a non-zero block size the counter ends below
  the block size; with a zero block size the operation is a modulo by zero.  The
  constructor leaves the block size 0, so a write before \<^verbatim>\<open>Init\<close> whose forwarded call
  returns true is a modulo by zero; \<^verbatim>\<open>Init\<close> makes the block size non-zero exactly when
  its argument is.  The decorator itself divides by zero in no other case.
\<close>

theorem ZeroPad_Write_modulo_needs_block_size:
  "(Write U bytes (underlying_extent_writer z) = Inr (True, u) \<longrightarrow>
      (if z_block_size z = 0 then ZeroPad_Write U bytes z = Inl ModuloByZero
       else \<exists>z'. ZeroPad_Write U bytes z = Inr (True, z')
              \<and> z_block_size z' = z_block_size z
              \<and> bytes_written_mod_block_size z' =
                  (bytes_written_mod_block_size z + word_of_nat (length bytes))
                    mod z_block_size z
              \<and> bytes_written_mod_block_size z' < z_block_size z))
   \<and> z_block_size (new_ZeroPadExtentWriter u0) = 0
   \<and> (Write U bytes u0 = Inr (True, u) \<longrightarrow>
        ZeroPad_Write U bytes (new_ZeroPadExtentWriter u0) = Inl ModuloByZero)
   \<and> (ZeroPad_Init U fd' exts bs z = Inr (r, z1) \<longrightarrow> (z_block_size z1 = 0 \<longleftrightarrow> bs = 0))
   \<and> (ZeroPad_Write U bytes z = Inl ModuloByZero \<longrightarrow>
        z_block_size z = 0 \<or> Write U bytes (underlying_extent_writer z) = Inl ModuloByZero)"
  by (auto simp: ZeroPad_Write_def ZeroPad_Init_def new_ZeroPadExtentWriter_def Let_def
        ucast_block_size_eq_0 word_mod_less_divisor word_greater_zero_iff
      split: sum.splits prod.splits if_splits)

theorem ZeroPad_Write_modulo_needs_block_size_witness:
  "Write (Direct_vtable journal_pwrite) [1, 2] demo_direct
     = Inr (True, demo_direct\<lparr>derived := (derived demo_direct)
              \<lparr>fd := Some [(20, [1, 2])], extent_bytes_written := 2\<rparr>\<rparr>)
   \<and> ZeroPad_Write (Direct_vtable journal_pwrite) [1, 2] (new_ZeroPadExtentWriter demo_direct)
     = Inl ModuloByZero
   \<and> map_sum id (\<lambda>(r, z). (r, z_block_size z))
       (ZeroPad_Init (Direct_vtable journal_pwrite) (Some []) demo_extents 4
          (new_ZeroPadExtentWriter demo_direct))
     = Inr (True, 4)
   \<and> map_sum id (\<lambda>(r, z). (r, bytes_written_mod_block_size z))
       (ZeroPad_Write (Direct_vtable journal_pwrite) [1, 2]
          ((new_ZeroPadExtentWriter demo_direct)\<lparr>z_block_size := 4\<rparr>))
     = Inr (True, 2)"
  using ZeroPad_Write_modulo_needs_block_size [of "Direct_vtable journal_pwrite" "[1, 2]"
      "new_ZeroPadExtentWriter demo_direct"
      "demo_direct\<lparr>derived := (derived demo_direct)
         \<lparr>fd := Some [(20, [1, 2])], extent_bytes_written := 2\<rparr>\<rparr>" demo_direct]
  by (simp add: demo_defs)

text \<open>
  C10.  When \<^verbatim>\<open>ZeroPadExtentWriter::EndImpl\<close> reaches its last line (no padding was due,
  or the padding write returned true) and returns, its result is the result of the
  wrapped writer's \<^verbatim>\<open>End\<close>, and the wrapped writer has \<^verbatim>\<open>end_called_\<close> set.
\<close>

theorem ZeroPad_EndImpl_ends_wrapped_writer:
  assumes "ZeroPad_EndImpl U z = Inr (r, z')"
      and "bytes_written_mod_block_size z = 0 \<or>
           (\<exists>u. Write U (replicate (unat (z_block_size z - bytes_written_mod_block_size z)) 0)
                  (underlying_extent_writer z) = Inr (True, u))"
  shows "end_called (underlying_extent_writer z')
       \<and> (if bytes_written_mod_block_size z = 0
          then End U (underlying_extent_writer z) = Inr (r, underlying_extent_writer z')
          else \<exists>u. Write U (replicate (unat (z_block_size z - bytes_written_mod_block_size z)) 0)
                         (underlying_extent_writer z) = Inr (True, u)
                  \<and> End U u = Inr (r, underlying_extent_writer z'))"
proof (cases "bytes_written_mod_block_size z = 0")
  case True
  with assms(1) have e: "End U (underlying_extent_writer z) = Inr (r, underlying_extent_writer z')"
    by (auto simp: ZeroPad_EndImpl_def split: sum.splits prod.splits)
  from End_sets_end_called [OF e] e True show ?thesis by simp
next
  case False
  with assms(2) obtain u where
    w: "Write U (replicate (unat (z_block_size z - bytes_written_mod_block_size z)) 0)
          (underlying_extent_writer z) = Inr (True, u)"
    by blast
  with assms(1) False have e: "End U u = Inr (r, underlying_extent_writer z')"
    by (auto simp: ZeroPad_EndImpl_def Let_def split: sum.splits prod.splits)
  from End_sets_end_called [OF e] e w False show ?thesis by auto
qed

theorem ZeroPad_EndImpl_ends_wrapped_writer_witness:
  "map_sum id (\<lambda>(r, z). (r, end_called (underlying_extent_writer z),
                            fd (derived (underlying_extent_writer z))))
     (ZeroPad_EndImpl (Direct_vtable journal_pwrite)
        \<lparr>underlying_extent_writer = demo_direct, z_block_size = 4,
         bytes_written_mod_block_size = 3\<rparr>)
     = Inr (True, True, Some [(20, [0])])
   \<and> \<not> end_called demo_direct
   \<and> Write (Direct_vtable journal_pwrite) [0] demo_direct
     = Inr (True, demo_direct\<lparr>derived := (derived demo_direct)
              \<lparr>fd := Some [(20, [0])], extent_bytes_written := 1\<rparr>\<rparr>)
   \<and> End (Direct_vtable journal_pwrite)
       (demo_direct\<lparr>derived := (derived demo_direct)
              \<lparr>fd := Some [(20, [0])], extent_bytes_written := 1\<rparr>\<rparr>)
     = Inr (True, demo_direct\<lparr>end_called := True, derived := (derived demo_direct)
              \<lparr>fd := Some [(20, [0])], extent_bytes_written := 1\<rparr>\<rparr>)"
proof -
  let ?z = "\<lparr>underlying_extent_writer = demo_direct, z_block_size = 4,
             bytes_written_mod_block_size = 3\<rparr>"
  let ?u = "demo_direct\<lparr>derived := (derived demo_direct)
              \<lparr>fd := Some [(20, [0])], extent_bytes_written := 1\<rparr>\<rparr>"
  have run: "ZeroPad_EndImpl (Direct_vtable journal_pwrite) ?z
               = Inr (True, ?z\<lparr>underlying_extent_writer := ?u\<lparr>end_called := True\<rparr>\<rparr>)"
    by (simp add: demo_defs)
  have pad: "bytes_written_mod_block_size ?z = 0 \<or>
           (\<exists>u. Write (Direct_vtable journal_pwrite)
                  (replicate (unat (z_block_size ?z - bytes_written_mod_block_size ?z)) 0)
                  (underlying_extent_writer ?z) = Inr (True, u))"
    by (simp add: demo_defs)
  show ?thesis
    using ZeroPad_EndImpl_ends_wrapped_writer [OF run pad] run
    by (simp add: demo_defs)
qed

text \<open>
  C6.  In a session of the decorator (constructed, initialised, then any writes, each
  buffer smaller than \<open>2^63\<close> bytes as every object in memory is) in which the number of
  bytes written with success is a multiple of the block size, zero bytes included,
  \<^verbatim>\<open>End\<close> makes no write on the wrapped writer: it only calls the wrapped writer's \<^verbatim>\<open>End\<close>.
\<close>

theorem ZeroPad_End_aligned_no_padding:
  assumes init: "Init (ZeroPad_vtable U) fd' exts bs
                   (new_ExtentWriter (new_ZeroPadExtentWriter u0)) = Inr (r0, z1)"
      and writes: "Writes (ZeroPad_vtable U) chunks z1 = Inr (rs, z2)"
      and sizes: "\<forall>b \<in> set chunks. length b < 2 ^ 63"
      and aligned: "unat bs dvd written chunks rs"
  shows "End (ZeroPad_vtable U) z2 = finalize_without_padding U z2"
proof -
  from ZeroPad_session_counter [OF init writes sizes] aligned
  have "unat (bytes_written_mod_block_size (derived z2)) = 0"
    by auto
  then have "bytes_written_mod_block_size (derived z2) = 0"
    by (simp add: unat_0_iff)
  then show ?thesis by (rule End_ZeroPad_aligned)
qed

theorem ZeroPad_End_aligned_no_padding_witness:
  "Init (ZeroPad_vtable (Direct_vtable journal_pwrite)) (Some []) demo_extents 4
     (new_ExtentWriter (new_ZeroPadExtentWriter demo_direct)) = Inr (True, demo_zeropad)
   \<and> map_sum id fst
       (Writes (ZeroPad_vtable (Direct_vtable journal_pwrite)) [[1, 2, 3], [4]] demo_zeropad)
     = Inr [True, True]
   \<and> map_sum id (\<lambda>(r, z). (r, fd (derived (underlying_extent_writer (derived z)))))
       (End (ZeroPad_vtable (Direct_vtable journal_pwrite))
          (demo_zeropad\<lparr>derived := (derived demo_zeropad)
             \<lparr>underlying_extent_writer := demo_direct\<lparr>derived := (derived demo_direct)
                \<lparr>fd := Some [(20, [1, 2, 3]), (23, [4])], extent_bytes_written := 4\<rparr>\<rparr>\<rparr>\<rparr>))
     = Inr (True, Some [(20, [1, 2, 3]), (23, [4])])"
proof -
  let ?V = "ZeroPad_vtable (Direct_vtable journal_pwrite)"
  let ?z2 = "demo_zeropad\<lparr>derived := (derived demo_zeropad)
             \<lparr>underlying_extent_writer := demo_direct\<lparr>derived := (derived demo_direct)
                \<lparr>fd := Some [(20, [1, 2, 3]), (23, [4])], extent_bytes_written := 4\<rparr>\<rparr>\<rparr>\<rparr>"
  have init: "Init ?V (Some []) demo_extents 4
                (new_ExtentWriter (new_ZeroPadExtentWriter demo_direct)) = Inr (True, demo_zeropad)"
    by (simp add: demo_defs)
  have writes: "Writes ?V [[1, 2, 3], [4]] demo_zeropad = Inr ([True, True], ?z2)"
    by (simp add: demo_defs)
  have sizes: "\<forall>b \<in> set [[1, 2, 3], [4 :: byte]]. length b < 2 ^ 63"
    by simp
  have total: "written [[1, 2, 3], [4 :: byte]] [True, True] = 4"
    by simp
  have aligned: "unat (4 :: uint32_t) dvd written [[1, 2, 3], [4 :: byte]] [True, True]"
    unfolding total by simp
  show ?thesis
    using ZeroPad_End_aligned_no_padding [OF init writes sizes aligned] init writes
    by (simp add: finalize_without_padding_def demo_defs)
qed

text \<open>
  C2.  In a session of the decorator in which the number of bytes written with success
  is not a multiple of the block size, \<^verbatim>\<open>End\<close> makes one write of
  \<open>block_size - total mod block_size\<close> zero bytes on the wrapped writer; when that write
  fails the whole \<^verbatim>\<open>End\<close> fails, otherwise the wrapped writer's \<^verbatim>\<open>End\<close> follows and its
  result is returned.  With block size 4096 and 4096 + 100 bytes written the padding is
  3996 zero bytes.
\<close>

theorem ZeroPad_End_unaligned_pads_once:
  assumes init: "Init (ZeroPad_vtable U) fd' exts bs
                   (new_ExtentWriter (new_ZeroPadExtentWriter u0)) = Inr (r0, z1)"
      and writes: "Writes (ZeroPad_vtable U) chunks z1 = Inr (rs, z2)"
      and sizes: "\<forall>b \<in> set chunks. length b < 2 ^ 63"
      and unaligned: "\<not> unat bs dvd written chunks rs"
  shows "End (ZeroPad_vtable U) z2
           = finalize_with_padding U (unat bs - written chunks rs mod unat bs) z2
       \<and> (bs = 4096 \<and> written chunks rs = 4096 + 100 \<longrightarrow>
            End (ZeroPad_vtable U) z2 = finalize_with_padding U 3996 z2)"
proof -
  note inv = ZeroPad_session_counter [OF init writes sizes]
  from inv unaligned have nz: "bs \<noteq> 0"
    by auto
  from inv have c: "unat (bytes_written_mod_block_size (derived z2)) = written chunks rs mod unat bs"
    and b: "z_block_size (derived z2) = ucast bs"
    by simp_all
  from unaligned c have cnz: "bytes_written_mod_block_size (derived z2) \<noteq> 0"
    by (auto simp: mod_eq_0_iff_dvd simp flip: unat_0_iff)
  have "unat (bytes_written_mod_block_size (derived z2)) < unat (ucast bs :: size_t)"
    using c nz by (simp add: unat_ucast_block_size unat_gt_0)
  then have le: "bytes_written_mod_block_size (derived z2) \<le> ucast bs"
    by (simp add: word_le_nat_alt)
  have "unat (z_block_size (derived z2) - bytes_written_mod_block_size (derived z2))
          = unat bs - written chunks rs mod unat bs"
    using unat_sub [OF le] b c by (simp add: unat_ucast_block_size)
  with End_ZeroPad_unaligned [OF cnz, of U]
  have main: "End (ZeroPad_vtable U) z2
           = finalize_with_padding U (unat bs - written chunks rs mod unat bs) z2"
    by simp
  then show ?thesis by auto
qed

theorem ZeroPad_End_unaligned_pads_once_witness:
  "Init (ZeroPad_vtable (Direct_vtable journal_pwrite)) (Some []) demo_extents 4
     (new_ExtentWriter (new_ZeroPadExtentWriter demo_direct)) = Inr (True, demo_zeropad)
   \<and> map_sum id fst
       (Writes (ZeroPad_vtable (Direct_vtable journal_pwrite)) [[1, 2, 3, 4, 5]] demo_zeropad)
     = Inr [True]
   \<and> map_sum id (\<lambda>(r, z). (r, fd (derived (underlying_extent_writer (derived z)))))
       (End (ZeroPad_vtable (Direct_vtable journal_pwrite))
          (demo_zeropad\<lparr>derived := (derived demo_zeropad)
             \<lparr>underlying_extent_writer := demo_direct\<lparr>derived := (derived demo_direct)
                \<lparr>fd := Some [(20, [1, 2, 3, 4, 5])], extent_bytes_written := 5\<rparr>\<rparr>,
              bytes_written_mod_block_size := 1\<rparr>\<rparr>))
     = Inr (True, Some [(20, [1, 2, 3, 4, 5]), (25, [0, 0, 0])])"
proof -
  let ?V = "ZeroPad_vtable (Direct_vtable journal_pwrite)"
  let ?z2 = "demo_zeropad\<lparr>derived := (derived demo_zeropad)
             \<lparr>underlying_extent_writer := demo_direct\<lparr>derived := (derived demo_direct)
                \<lparr>fd := Some [(20, [1, 2, 3, 4, 5])], extent_bytes_written := 5\<rparr>\<rparr>,
              bytes_written_mod_block_size := 1\<rparr>\<rparr>"
  have init: "Init ?V (Some []) demo_extents 4
                (new_ExtentWriter (new_ZeroPadExtentWriter demo_direct)) = Inr (True, demo_zeropad)"
    by (simp add: demo_defs)
  have writes: "Writes ?V [[1, 2, 3, 4, 5]] demo_zeropad = Inr ([True], ?z2)"
    by (simp add: demo_defs)
  have sizes: "\<forall>b \<in> set [[1, 2, 3, 4, 5 :: byte]]. length b < 2 ^ 63"
    by simp
  have total: "written [[1, 2, 3, 4, 5 :: byte]] [True] = 5"
    by simp
  have unaligned: "\<not> unat (4 :: uint32_t) dvd written [[1, 2, 3, 4, 5 :: byte]] [True]"
    unfolding total by simp
  have three: "replicate 3 (0 :: byte) = [0, 0, 0]"
    by (simp add: numeral_3_eq_3)
  show ?thesis
    using ZeroPad_End_unaligned_pads_once [OF init writes sizes unaligned] init writes
    by (simp add: finalize_with_padding_def finalize_without_padding_def three demo_defs)
qed

text \<open>
  C5.  For every wrapped writer, target, extent list, block size and sequence of
  buffers, a session through two stacked decorators and the same session through one
  decorator return the same results to the caller (or the same fault) and leave the
  wrapped writer in the same state.  With a probe around the wrapped writer, the calls
  that reach it, their arguments and their results are the same.  The padding is the
  outer decorator's: it passes through the inner one, whose counter is 0 whenever the
  inner one is finalized, so the inner one pads nothing.
\<close>

theorem stacked_ZeroPad_equivalent:
  "map_sum id (map_prod id (\<lambda>zzw. (end_called zzw, wrapped (wrapped zzw))))
     (session (ZeroPad_vtable (ZeroPad_vtable U)) fd' exts bs chunks finalize
        (new_ExtentWriter (new_ZeroPadExtentWriter
           (new_ExtentWriter (new_ZeroPadExtentWriter u0)))))
   = map_sum id (map_prod id (\<lambda>zw. (end_called zw, wrapped zw)))
       (session (ZeroPad_vtable U) fd' exts bs chunks finalize
          (new_ExtentWriter (new_ZeroPadExtentWriter u0)))
   \<and> map_sum id (\<lambda>(rs, zzw). (rs, fst (derived (wrapped (wrapped zzw)))))
       (session (ZeroPad_vtable (ZeroPad_vtable (Recording U))) fd' exts bs chunks finalize
          (new_ExtentWriter (new_ZeroPadExtentWriter
             (new_ExtentWriter (new_ZeroPadExtentWriter (new_ExtentWriter ([], s0)))))))
     = map_sum id (\<lambda>(rs, zw). (rs, fst (derived (wrapped zw))))
         (session (ZeroPad_vtable (Recording U)) fd' exts bs chunks finalize
            (new_ExtentWriter (new_ZeroPadExtentWriter (new_ExtentWriter ([], s0)))))
   \<and> (\<forall>rs zzw.
        session (ZeroPad_vtable (ZeroPad_vtable U)) fd' exts bs chunks finalize
          (new_ExtentWriter (new_ZeroPadExtentWriter
             (new_ExtentWriter (new_ZeroPadExtentWriter u0)))) = Inr (rs, zzw)
        \<and> end_called (wrapped zzw)
        \<longrightarrow> bytes_written_mod_block_size (derived (wrapped zzw)) = 0)"
proof -
  note general = stacked_session [of U fd' exts bs chunks finalize u0]
  note probed = stacked_session [of "Recording U" fd' exts bs chunks finalize
      "new_ExtentWriter ([], s0)", THEN conjunct1, THEN observe_calls]
  from general probed show ?thesis
    by blast
qed

theorem stacked_ZeroPad_equivalent_witness:
  "map_sum id (\<lambda>(rs, zzw). (rs, end_called zzw, end_called (wrapped zzw),
                  bytes_written_mod_block_size (derived (wrapped zzw)),
                  fd (derived (wrapped (wrapped zzw)))))
     (session (ZeroPad_vtable (ZeroPad_vtable (Direct_vtable journal_pwrite)))
        (Some []) demo_extents 4 [[1, 2, 3, 4, 5]] True
        (new_ExtentWriter (new_ZeroPadExtentWriter
           (new_ExtentWriter (new_ZeroPadExtentWriter demo_direct)))))
     = Inr ([True, True, True], True, True, 0, Some [(20, [1, 2, 3, 4, 5]), (25, [0, 0, 0])])
   \<and> map_sum id (\<lambda>(rs, zw). (rs, end_called zw, fd (derived (wrapped zw))))
       (session (ZeroPad_vtable (Direct_vtable journal_pwrite))
          (Some []) demo_extents 4 [[1, 2, 3, 4, 5]] True
          (new_ExtentWriter (new_ZeroPadExtentWriter demo_direct)))
     = Inr ([True, True, True], True, Some [(20, [1, 2, 3, 4, 5]), (25, [0, 0, 0])])"
proof -
  have three: "replicate 3 (0 :: byte) = [0, 0, 0]"
    by (simp add: numeral_3_eq_3)
  show ?thesis
    using stacked_ZeroPad_equivalent [of "Direct_vtable journal_pwrite" "Some []" demo_extents 4
        "[[1, 2, 3, 4, 5]]" True demo_direct]
    by (simp add: session_def wrapped_def three demo_defs)
qed

text \<open>
  The reason the spec gives for this equivalence does not hold of the code: it is the
  outer decorator that pads.  In the session above, a probe between the two decorators records a write of three zero bytes that the
  caller never made, and a probe between the inner decorator and the direct writer
  records that one padding write and no other.
\<close>

theorem stacked_outer_decorator_pads:
  "map_sum id (\<lambda>(rs, zzw). fst (derived (wrapped zzw)))
     (session (ZeroPad_vtable (Recording (ZeroPad_vtable (Direct_vtable journal_pwrite))))
        (Some []) demo_extents 4 [[1, 2, 3, 4, 5]] True
        (new_ExtentWriter (new_ZeroPadExtentWriter
           (new_ExtentWriter ([], new_ZeroPadExtentWriter demo_direct)))))
     = Inr [InitCall (Some []) demo_extents 4 True, WriteCall [1, 2, 3, 4, 5] True,
            WriteCall [0, 0, 0] True, EndImplCall True]
   \<and> map_sum id (\<lambda>(rs, zzw). fst (derived (wrapped (wrapped zzw))))
       (session (ZeroPad_vtable (ZeroPad_vtable (Recording (Direct_vtable journal_pwrite))))
          (Some []) demo_extents 4 [[1, 2, 3, 4, 5]] True
          (new_ExtentWriter (new_ZeroPadExtentWriter
             (new_ExtentWriter (new_ZeroPadExtentWriter
                (new_ExtentWriter ([], derived demo_direct)))))))
     = Inr [InitCall (Some []) demo_extents 4 True, WriteCall [1, 2, 3, 4, 5] True,
            WriteCall [0, 0, 0] True, EndImplCall True]"
proof -
  have three: "replicate 3 (0 :: byte) = [0, 0, 0]"
    by (simp add: numeral_3_eq_3)
  show ?thesis
    by (simp add: session_def wrapped_def Recording_def Let_def three demo_defs)
qed

text \<open>
  C1.  A direct writer initialised over a journal target, driven by any sequence of
  write calls that all succeed, stores every byte of the concatenated stream exactly
  once, in order, at the place the layout gives it: the extents in order, and within a
  non-hole extent the offset \<open>start_block * block_size + bytes already in the extent\<close>;
  the bytes of a hole are stored nowhere.  With the extents (start 5, 2 blocks) and
  (start 10, 1 block), block size 4096 and an empty target, logical byte \<open>i\<close> is stored
  at \<open>5 * 4096 + i\<close> when \<open>i < 8192\<close> and at \<open>10 * 4096 + (i - 8192)\<close> otherwise, and the
  target reads that byte back at that offset.
\<close>

theorem Direct_Write_placement:
  assumes init: "Init (Direct_vtable journal_pwrite) (Some t) exts bs
                   (new_ExtentWriter new_DirectExtentWriter) = Inr (r0, w1)"
      and writes: "Writes (Direct_vtable journal_pwrite) chunks w1 = Inr (rs, w2)"
      and ok: "\<forall>x \<in> set rs. x"
  shows "\<exists>t'. fd (derived w2) = Some t'
          \<and> stores t' = stores t @ placement (layout (unat bs) exts) (concat chunks)
          \<and> (exts = demo_extents \<and> bs = 4096 \<and> t = [] \<longrightarrow>
               stores t' = map (\<lambda>i. (example_offset i, concat chunks ! i))
                             [0 ..< length (concat chunks)]
             \<and> (\<forall>i < length (concat chunks).
                  contents t' (example_offset i) = Some (concat chunks ! i)))"
proof -
  note i = Init_Direct [OF init]
  from Writes_journal [OF i(1,2) writes ok] obtain t' where
    t': "fd (derived w2) = Some t'"
    and s': "stores t' = stores t @ placement (layout (unat bs) exts) (concat chunks)"
    unfolding i(3) by auto
  from Writes_success [OF i(1) writes ok]
  have le: "length (concat chunks) \<le> capacity (unat bs) exts"
    unfolding i(3) by (simp add: length_layout length_concat)
  have "stores t' = map (\<lambda>i. (example_offset i, concat chunks ! i))
                             [0 ..< length (concat chunks)]
             \<and> (\<forall>i < length (concat chunks).
                  contents t' (example_offset i) = Some (concat chunks ! i))"
    if ex: "exts = demo_extents" "bs = 4096" "t = []"
  proof -
    from le ex have "length (concat chunks) \<le> 12288"
      by (simp add: capacity_def demo_extents_def del: upt_rec_numeral)
    from example_placement [OF this] s' ex
    have eq: "stores t' = map (\<lambda>i. (example_offset i, concat chunks ! i))
                             [0 ..< length (concat chunks)]"
      by (simp add: stores_def del: upt_rec_numeral)
    from contents_of_distinct_stores [OF eq example_offset_inj] eq show ?thesis
      by blast
  qed
  with t' s' show ?thesis by blast
qed


theorem Direct_Write_placement_witness:
  "Init (Direct_vtable journal_pwrite) (Some []) demo_extents 4
     (new_ExtentWriter new_DirectExtentWriter) = Inr (True, demo_direct)
   \<and> Writes (Direct_vtable journal_pwrite) [[1, 2, 3], [4, 5, 6, 7, 8, 9, 10]] demo_direct
     = Inr ([True, True],
            demo_direct\<lparr>derived := (derived demo_direct)
              \<lparr>fd := Some [(20, [1, 2, 3]), (23, [4, 5, 6, 7, 8]), (40, [9, 10])],
               extent_bytes_written := 2, next_extent_index := 1\<rparr>\<rparr>)
   \<and> stores [(20, [1, 2, 3]), (23, [4, 5, 6, 7, 8]), (40, [9, 10])]
     = placement (layout 4 demo_extents) [1, 2, 3, 4, 5, 6, 7, 8, 9, 10]
   \<and> stores [(20, [1, 2, 3]), (23, [4, 5, 6, 7, 8]), (40, [9, 10])]
     = [(20, 1), (21, 2), (22, 3), (23, 4), (24, 5), (25, 6), (26, 7), (27, 8), (40, 9), (41, 10)]"
proof -
  let ?w2 = "demo_direct\<lparr>derived := (derived demo_direct)
              \<lparr>fd := Some [(20, [1, 2, 3]), (23, [4, 5, 6, 7, 8]), (40, [9, 10])],
               extent_bytes_written := 2, next_extent_index := 1\<rparr>\<rparr>"
  have init: "Init (Direct_vtable journal_pwrite) (Some []) demo_extents 4
     (new_ExtentWriter new_DirectExtentWriter) = Inr (True, demo_direct)"
    by (simp add: demo_defs)
  have writes: "Writes (Direct_vtable journal_pwrite) [[1, 2, 3], [4, 5, 6, 7, 8, 9, 10]]
                  demo_direct = Inr ([True, True], ?w2)"
    by (simp add: demo_defs)
  have ok: "\<forall>x \<in> set [True, True]. x"
    by simp
  have flat: "stores [(20, [1, 2, 3]), (23, [4, 5, 6, 7, 8 :: byte]), (40, [9, 10])]
     = [(20, 1), (21, 2), (22, 3), (23, 4), (24, 5), (25, 6), (26, 7), (27, 8), (40, 9), (41, 10)]"
    by (simp add: stores_def upt_rec)
  show ?thesis
    using Direct_Write_placement [OF init writes ok] init writes flat
    by (simp add: stores_def)
qed

text \<open>
  C3.  A direct writer initialised with a target has the capacity
  \<open>block_size * sum of the block counts\<close>.  On a target whose positioned writes do not
  fail, any sequence of writes whose total is at most the capacity (so also exactly the
  capacity) succeeds call by call, and a further write that would exceed the capacity
  returns false, from the exhausted-extents exit of the loop.  On any target, once
  writes within the capacity have succeeded, no write that exceeds it returns true.
\<close>

theorem Direct_Write_capacity:
  assumes init: "Init (Direct_vtable pw) (Some t) exts bs
                   (new_ExtentWriter new_DirectExtentWriter) = Inr (r0, w1)"
  shows "((\<forall>t off b. pw t off b \<noteq> None)
           \<and> sum_list (map length chunks) \<le> capacity (unat bs) exts \<longrightarrow>
          (\<exists>w2. Writes (Direct_vtable pw) chunks w1 = Inr (replicate (length chunks) True, w2)
             \<and> (\<forall>b. capacity (unat bs) exts < sum_list (map length chunks) + length b \<longrightarrow>
                  (\<exists>d3. Direct_walk pw (derived w2) b = Inr (Some ExhaustedExtents, d3)
                      \<and> Write (Direct_vtable pw) b w2 = Inr (False, w2\<lparr>derived := d3\<rparr>)))))
       \<and> (\<forall>rs w2 b w3.
            Writes (Direct_vtable pw) chunks w1 = Inr (rs, w2) \<and> (\<forall>x \<in> set rs. x)
            \<and> capacity (unat bs) exts < sum_list (map length chunks) + length b \<longrightarrow>
            Write (Direct_vtable pw) b w2 \<noteq> Inr (True, w3))"
proof -
  note i = Init_Direct [OF init]
  have cap: "length (ahead (derived w1)) = capacity (unat bs) exts"
    by (simp add: i(3) length_layout)
  have after: "cursor_ok (derived w2)
       \<and> length (ahead (derived w2)) = capacity (unat bs) exts - sum_list (map length chunks)
       \<and> sum_list (map length chunks) \<le> capacity (unat bs) exts"
    if "Writes (Direct_vtable pw) chunks w1 = Inr (rs, w2)" and "\<forall>x \<in> set rs. x" for rs w2
    using Writes_success [OF i(1) that] cap by simp
  have first: "\<exists>w2. Writes (Direct_vtable pw) chunks w1 = Inr (replicate (length chunks) True, w2)
             \<and> (\<forall>b. capacity (unat bs) exts < sum_list (map length chunks) + length b \<longrightarrow>
                  (\<exists>d3. Direct_walk pw (derived w2) b = Inr (Some ExhaustedExtents, d3)
                      \<and> Write (Direct_vtable pw) b w2 = Inr (False, w2\<lparr>derived := d3\<rparr>)))"
    if healthy: "\<forall>t off b. pw t off b \<noteq> None"
      and fits: "sum_list (map length chunks) \<le> capacity (unat bs) exts"
  proof -
    from i(2) have nn: "fd (derived w1) \<noteq> None" by simp
    from fits cap have "sum_list (map length chunks) \<le> length (ahead (derived w1))" by simp
    from Writes_total [OF i(1) healthy nn this] obtain w2 where
      run: "Writes (Direct_vtable pw) chunks w1 = Inr (replicate (length chunks) True, w2)"
      and nn2: "fd (derived w2) \<noteq> None"
      by auto
    have "\<forall>x \<in> set (replicate (length chunks) True). x" by simp
    from after [OF run this] have ok2: "cursor_ok (derived w2)"
      and len2: "length (ahead (derived w2))
                   = capacity (unat bs) exts - sum_list (map length chunks)"
      by simp_all
    have "\<exists>d3. Direct_walk pw (derived w2) b = Inr (Some ExhaustedExtents, d3)
                \<and> Write (Direct_vtable pw) b w2 = Inr (False, w2\<lparr>derived := d3\<rparr>)"
      if over: "capacity (unat bs) exts < sum_list (map length chunks) + length b" for b
    proof -
      from over len2 fits have "\<not> length b \<le> length (ahead (derived w2))" by linarith
      with walk_total [OF ok2 healthy nn2, of b] obtain d3 where
        "Direct_walk pw (derived w2) b = Inr (Some ExhaustedExtents, d3)"
        by auto
      then show ?thesis by (simp add: Write_Direct)
    qed
    with run show ?thesis by blast
  qed
  have second: "Write (Direct_vtable pw) b w2 \<noteq> Inr (True, w3)"
    if run: "Writes (Direct_vtable pw) chunks w1 = Inr (rs, w2)" and all: "\<forall>x \<in> set rs. x"
      and over: "capacity (unat bs) exts < sum_list (map length chunks) + length b"
    for rs w2 b w3
  proof
    assume "Write (Direct_vtable pw) b w2 = Inr (True, w3)"
    then have walk: "Direct_walk pw (derived w2) b = Inr (None, derived w3)"
      by (rule Write_Direct_success)
    from after [OF run all] have ok2: "cursor_ok (derived w2)"
      and len2: "length (ahead (derived w2))
                   = capacity (unat bs) exts - sum_list (map length chunks)"
      and fits: "sum_list (map length chunks) \<le> capacity (unat bs) exts"
      by simp_all
    from walk_success [OF ok2 walk] have "length b \<le> length (ahead (derived w2))"
      by simp
    with len2 over fits show False by linarith
  qed
  from first second show ?thesis by blast
qed

theorem Direct_Write_capacity_witness:
  "Init (Direct_vtable journal_pwrite) (Some []) demo_extents 4
     (new_ExtentWriter new_DirectExtentWriter) = Inr (True, demo_direct)
   \<and> capacity (unat (4 :: uint32_t)) demo_extents = 12
   \<and> map_sum id fst
       (Writes (Direct_vtable journal_pwrite)
          [[1, 2, 3, 4, 5, 6, 7, 8, 9, 10], [11, 12]] demo_direct)
     = Inr [True, True]
   \<and> map_sum id fst
       (Write (Direct_vtable journal_pwrite) [13]
          (demo_direct\<lparr>derived := (derived demo_direct)
             \<lparr>fd := Some [(20, [1, 2, 3, 4, 5, 6, 7, 8]), (40, [9, 10]), (42, [11, 12])],
              extent_bytes_written := 4, next_extent_index := 1\<rparr>\<rparr>))
     = Inr False
   \<and> map_sum id fst
       (Direct_walk journal_pwrite
          ((derived demo_direct)
             \<lparr>fd := Some [(20, [1, 2, 3, 4, 5, 6, 7, 8]), (40, [9, 10]), (42, [11, 12])],
              extent_bytes_written := 4, next_extent_index := 1\<rparr>) [13])
     = Inr (Some ExhaustedExtents)"
proof -
  have init: "Init (Direct_vtable journal_pwrite) (Some []) demo_extents 4
     (new_ExtentWriter new_DirectExtentWriter) = Inr (True, demo_direct)"
    by (simp add: demo_defs)
  show ?thesis
    using Direct_Write_capacity [OF init, of "[[1, 2, 3, 4, 5, 6, 7, 8, 9, 10], [11, 12]]"]
    by (simp add: capacity_def demo_defs)
qed

text \<open>
  C8.  \<^verbatim>\<open>DirectExtentWriter::Init\<close> succeeds on every input: it checks nothing and only
  records the target, the block size and the extents.  A null target, an empty extent
  list and a block size of 0 are instances.
\<close>

theorem Direct_Init_always_succeeds:
  "Direct_Init fd' exts bs d =
     Inr (True, d\<lparr>fd := fd', d_block_size := unat bs, extents := exts\<rparr>)
   \<and> Direct_Init None [] 0 d = Inr (True, d\<lparr>fd := None, d_block_size := 0, extents := []\<rparr>)"
  by (simp add: Direct_Init_def)

end
